theory Spec2Isabelle
  imports Complex_Main
begin

section \<open>Monte Carlo tree search: the object store\<close>

text \<open>
  The source (\<^verbatim>\<open>mcts/MCTS.py\<close>) builds a graph of mutable objects: a
  \<^verbatim>\<open>TreeNode\<close> lists its outgoing \<^verbatim>\<open>TreeEdge\<close>s and points back to the
  edge that leads to it, a \<^verbatim>\<open>TreeEdge\<close> points to its parent and to its child node.
  The references are cyclic and the claims depend on who shares what, so the objects live in
  an explicit store: a reference is an address (a natural number), the store maps every
  address to the object there, and \<open>next_node\<close>, \<open>next_edge\<close> are the first
  addresses no object has been allocated at.

  Numbers: rewards, priors and accumulated values are Python numbers; they are modelled as
  reals, so rounding, overflow and NaN of the floating-point arithmetic are outside the model.
  The one exception is \<open>softmax\<close>, where the underflow of a float64 result to zero is
  kept, because it decides whether a weight is zero.
  A visit count starts at 0 and is only ever incremented, so it is a natural number.
\<close>

type_synonym node_ref = nat
type_synonym edge_ref = nat

record TreeEdge =
  prior :: real
  visit_count :: nat
  value_e :: real
  parent :: node_ref
  child :: node_ref

text \<open>
  A node carries, besides the two fields of \<^verbatim>\<open>TreeNode.__init__\<close>, the data of the
  concrete subclass (the position of the game), of an arbitrary type \<open>'g\<close>.
\<close>

record 'g TreeNode =
  parent_edge :: "edge_ref option"
  children :: "edge_ref list"
  state :: 'g

text \<open>
  The random generator of numpy is global state too: \<open>rng\<close> is the sequence of numbers
  it is going to draw and \<open>rng_pos\<close> how many have been drawn.
\<close>

record 'g world =
  nodes :: "node_ref \<Rightarrow> 'g TreeNode"
  edges :: "edge_ref \<Rightarrow> TreeEdge"
  next_node :: nat
  next_edge :: nat
  rng :: "nat \<Rightarrow> nat"
  rng_pos :: nat

record MonteCarloTree =
  tree_root :: node_ref

text \<open>
  What a call does besides changing the store: it returns, it raises, or (for the two
  \<^verbatim>\<open>while\<close> loops, which need not end) it is still running when the fuel is used up.
\<close>

datatype error = AssertionError | RecursionError | ValueError | IndexError

datatype 'a outcome = Return 'a | Raise error | OutOfFuel

definition bind :: "'a outcome \<times> 's \<Rightarrow> ('a \<Rightarrow> 's \<Rightarrow> 'b outcome \<times> 's) \<Rightarrow> 'b outcome \<times> 's" where
  "bind m f =
     (case m of
        (Return x, s) \<Rightarrow> f x s
      | (Raise e, s) \<Rightarrow> (Raise e, s)
      | (OutOfFuel, s) \<Rightarrow> (OutOfFuel, s))"

text \<open>
  The abstract methods of \<^verbatim>\<open>TreeNode\<close> and the opponent handed to
  \<^verbatim>\<open>fit\<close> are parameters. \<open>get_available_child_nodes\<close> gives, for a position,
  the positions one move away with their priors; the node objects themselves are
  allocated when a node is expanded. The opponent answers a position with a position, and
  \<open>node_eq\<close> (the method \<^verbatim>\<open>__eq__\<close>) compares the positions of two nodes.
  \<^verbatim>\<open>pretty_print\<close>, \<^verbatim>\<open>traverse\<close> and \<^verbatim>\<open>__repr__\<close> only read the
  tree and are left out.
\<close>

record ('g, 'p) game =
  get_available_child_nodes :: "'g \<Rightarrow> ('g \<times> real) list"
  get_reward :: "'g \<Rightarrow> 'p \<Rightarrow> real"
  node_turn :: "'g \<Rightarrow> 'p"
  node_eq :: "'g \<Rightarrow> 'g \<Rightarrow> bool"
  opponent :: "'g \<Rightarrow> 'g"

section \<open>TreeEdge\<close>

definition TreeEdge_init :: "real \<Rightarrow> node_ref \<Rightarrow> node_ref \<Rightarrow> TreeEdge" where
  "TreeEdge_init p par ch =
     \<lparr>prior = p, visit_count = 0, value_e = 0, parent = par, child = ch\<rparr>"

text \<open>
  \<^verbatim>\<open>TreeEdge.update\<close> (lines 20 to 29). The recursion follows
  \<^verbatim>\<open>self.parent.parent_edge\<close>; the first argument is the number of frames the
  interpreter still allows, and the call raises \<^verbatim>\<open>RecursionError\<close> when none
  is left. The edges changed before the error stay changed.
\<close>

fun update :: "nat \<Rightarrow> edge_ref \<Rightarrow> real \<Rightarrow> 'g world \<Rightarrow> unit outcome \<times> 'g world" where
  "update 0 self reward w = (Raise RecursionError, w)"
| "update (Suc depth) self reward w =
     (let w1 = w\<lparr>edges := (edges w)(self := (edges w self)
                   \<lparr>value_e := value_e (edges w self) + reward\<rparr>)\<rparr>;
          w2 = w1\<lparr>edges := (edges w1)(self := (edges w1 self)
                   \<lparr>visit_count := visit_count (edges w1 self) + 1\<rparr>)\<rparr>
      in case parent_edge (nodes w2 (parent (edges w2 self))) of
           None \<Rightarrow> (Return (), w2)
         | Some pe \<Rightarrow> update depth pe reward w2)"

text \<open>
  The calls of \<^verbatim>\<open>update\<close> that one call at \<open>self\<close> makes, itself included, in
  order: the edges the propagation reaches.
\<close>

fun reached :: "nat \<Rightarrow> 'g world \<Rightarrow> edge_ref \<Rightarrow> edge_ref list" where
  "reached 0 w self = []"
| "reached (Suc depth) w self =
     self # (case parent_edge (nodes w (parent (edges w self))) of
               None \<Rightarrow> []
             | Some pe \<Rightarrow> reached depth w pe)"

text \<open>A sequence of calls \<^verbatim>\<open>edge.update(reward)\<close>, one after the other.\<close>

fun updates :: "nat \<Rightarrow> (edge_ref \<times> real) list \<Rightarrow> 'g world \<Rightarrow> 'g world" where
  "updates depth [] w = w"
| "updates depth ((e, reward) # calls) w = updates depth calls (snd (update depth e reward w))"

text \<open>The rewards that reach edge \<open>x\<close> in such a sequence, directly or by propagation.\<close>

fun received :: "nat \<Rightarrow> 'g world \<Rightarrow> (edge_ref \<times> real) list \<Rightarrow> edge_ref \<Rightarrow> real list" where
  "received depth w [] x = []"
| "received depth w ((e, reward) # calls) x =
     map (\<lambda>_. reward) (filter (\<lambda>y. y = x) (reached depth w e)) @ received depth w calls x"

section \<open>The selection score\<close>

text \<open>\<^verbatim>\<open>MonteCarloTree.edge_criteria\<close> (lines 109 to 121).\<close>

definition edge_criteria :: "'g world \<Rightarrow> edge_ref \<Rightarrow> real \<Rightarrow> real" where
  "edge_criteria w edge c =
     (let exploit_term = value_e (edges w edge) / (1 + real (visit_count (edges w edge)));
          p_edge = parent_edge (nodes w (parent (edges w edge)));
          parent_visit_count =
            (case p_edge of None \<Rightarrow> 0 | Some pe \<Rightarrow> visit_count (edges w pe));
          explore_term = c * prior (edges w edge) * sqrt (real parent_visit_count)
                           / (1 + real (visit_count (edges w edge)))
      in exploit_term + explore_term)"

section \<open>TreeNode\<close>

definition TreeNode_init :: "edge_ref option \<Rightarrow> 'g \<Rightarrow> 'g TreeNode" where
  "TreeNode_init pe g = \<lparr>parent_edge = pe, children = [], state = g\<rparr>"

text \<open>
  \<^verbatim>\<open>get_available_child_nodes\<close> is abstract. Its contract (docstring, line 55) is
  an iterable of pairs of a node and a prior; the nodes are new objects, built by
  \<^verbatim>\<open>TreeNode.__init__\<close>, so each has no children yet. Their \<open>parent_edge\<close> is
  whatever the subclass passes to the constructor; \<^verbatim>\<open>expand\<close> overwrites it at
  once, and the model starts from \<open>None\<close>.
\<close>

fun alloc_nodes :: "('g \<times> real) list \<Rightarrow> 'g world \<Rightarrow> (node_ref \<times> real) list \<times> 'g world" where
  "alloc_nodes [] w = ([], w)"
| "alloc_nodes ((g, p) # rest) w =
     (let n = next_node w;
          w1 = w\<lparr>nodes := (nodes w)(n := TreeNode_init None g), next_node := Suc n\<rparr>;
          (rs, w2) = alloc_nodes rest w1
      in ((n, p) # rs, w2))"

definition available_child_nodes ::
  "('g, 'p) game \<Rightarrow> node_ref \<Rightarrow> 'g world \<Rightarrow> (node_ref \<times> real) list \<times> 'g world" where
  "available_child_nodes G self w =
     alloc_nodes (get_available_child_nodes G (state (nodes w self))) w"

text \<open>\<^verbatim>\<open>TreeNode.expand\<close> (lines 59 to 71): the loop of lines 68 to 71, then the method.\<close>

fun expand_loop :: "node_ref \<Rightarrow> (node_ref \<times> real) list \<Rightarrow> 'g world \<Rightarrow> 'g world" where
  "expand_loop self [] w = w"
| "expand_loop self ((new_node, new_prior) # rest) w =
     (let new_edge = next_edge w;
          w1 = w\<lparr>edges := (edges w)(new_edge := TreeEdge_init new_prior self new_node),
                 next_edge := Suc new_edge\<rparr>;
          w2 = w1\<lparr>nodes := (nodes w1)(new_node := (nodes w1 new_node)
                   \<lparr>parent_edge := Some new_edge\<rparr>)\<rparr>;
          w3 = w2\<lparr>nodes := (nodes w2)(self := (nodes w2 self)
                   \<lparr>children := children (nodes w2 self) @ [new_edge]\<rparr>)\<rparr>
      in expand_loop self rest w3)"

definition expand :: "('g, 'p) game \<Rightarrow> node_ref \<Rightarrow> 'g world \<Rightarrow> unit outcome \<times> 'g world" where
  "expand G self w =
     (if length (children (nodes w self)) \<noteq> 0 then (Raise AssertionError, w)
      else let (available_children, w1) = available_child_nodes G self w
           in (Return (), expand_loop self available_children w1))"

text \<open>
  \<^verbatim>\<open>is_terminal\<close> and \<^verbatim>\<open>is_finish\<close> (lines 87 to 91). The nodes that
  \<^verbatim>\<open>is_finish\<close> has enumerated are dropped when it returns; nothing can see them, so
  the model does not allocate them.
\<close>

definition is_terminal :: "'g world \<Rightarrow> node_ref \<Rightarrow> bool" where
  "is_terminal w self = (length (children (nodes w self)) = 0)"

definition is_finish :: "('g, 'p) game \<Rightarrow> 'g world \<Rightarrow> node_ref \<Rightarrow> bool" where
  "is_finish G w self = (length (get_available_child_nodes G (state (nodes w self))) = 0)"

section \<open>softmax and the random draws\<close>

text \<open>
  The arrays of \<^verbatim>\<open>softmax\<close> hold float64 numbers. The smallest positive float64
  is \<open>1 / 2 ^ 1074\<close>, and a result whose magnitude is at most half of that, \<open>tiny\<close>,
  is rounded to zero. Of the rounding of a float64 result the model keeps exactly this:
  \<open>underflow\<close> is applied to the exact result of \<^verbatim>\<open>np.exp\<close> and of the
  division. The subtraction of two float64 numbers is zero only when they are equal, and a
  sum of non-negative numbers is zero only when all of them are, so these two need no flush.
  The rounding of the mantissa and overflow stay outside the model, as everywhere else.
\<close>

definition tiny :: real where
  "tiny = 1 / 2 ^ 1075"

definition underflow :: "real \<Rightarrow> real" where
  "underflow y = (if \<bar>y\<bar> \<le> tiny then 0 else y)"

text \<open>
  \<^verbatim>\<open>softmax\<close> (lines 94 to 98). \<^verbatim>\<open>np.max\<close> of an empty array raises
  \<^verbatim>\<open>ValueError\<close>.
\<close>

definition softmax :: "real list \<Rightarrow> error + real list" where
  "softmax x =
     (if x = [] then Inl ValueError
      else let e_x = map (\<lambda>v. underflow (exp (v - Max (set x)))) x
           in Inr (map (\<lambda>v. underflow (v / sum_list e_x)) e_x))"

text \<open>
  \<^verbatim>\<open>np.random.choice(a)\<close> raises \<^verbatim>\<open>ValueError\<close> on an empty sequence and
  otherwise returns one of its entries; which one is read from the generator. With
  \<^verbatim>\<open>p=weights\<close> the weights say how likely each entry is, and there must be one
  per entry; the model lets the generator draw any entry, also one of weight zero, so what
  holds for every draw of the model holds for every draw of numpy.
\<close>

definition random_choice :: "'a list \<Rightarrow> 'g world \<Rightarrow> 'a outcome \<times> 'g world" where
  "random_choice a w =
     (if a = [] then (Raise ValueError, w)
      else (Return (a ! (rng w (rng_pos w) mod length a)), w\<lparr>rng_pos := Suc (rng_pos w)\<rparr>))"

definition random_choice_p :: "'a list \<Rightarrow> real list \<Rightarrow> 'g world \<Rightarrow> 'a outcome \<times> 'g world" where
  "random_choice_p a p w =
     (if length p \<noteq> length a then (Raise ValueError, w) else random_choice a w)"

section \<open>MonteCarloTree\<close>

text \<open>
  \<^verbatim>\<open>np.argmax\<close>: the index of the first occurrence of the maximum;
  \<^verbatim>\<open>ValueError\<close> on an empty sequence. \<open>argmax_from best_i best i xs\<close> scans
  the entries from index \<open>i\<close> on.
\<close>

fun argmax_from :: "nat \<Rightarrow> real \<Rightarrow> nat \<Rightarrow> real list \<Rightarrow> nat" where
  "argmax_from best_i best i [] = best_i"
| "argmax_from best_i best i (x # xs) =
     (if best < x then argmax_from i x (Suc i) xs else argmax_from best_i best (Suc i) xs)"

definition argmax :: "real list \<Rightarrow> error + nat" where
  "argmax xs = (case xs of [] \<Rightarrow> Inl ValueError | x # rest \<Rightarrow> Inr (argmax_from 0 x 1 rest))"

text \<open>
  \<^verbatim>\<open>MonteCarloTree.turn\<close> (lines 134 to 144). The tree object is returned next to
  the store, so that what the call does to \<^verbatim>\<open>self.root\<close> can be read off.
\<close>

definition turn ::
  "('g, 'p) game \<Rightarrow> MonteCarloTree \<Rightarrow> node_ref \<Rightarrow> 'g world
     \<Rightarrow> node_ref outcome \<times> MonteCarloTree \<times> 'g world" where
  "turn G self node w =
     (if \<not> node_eq G (state (nodes w (tree_root self))) (state (nodes w node))
      then (Raise AssertionError, self, w)
      else case argmax (map (\<lambda>c. value_e (edges w c) / (1 + real (visit_count (edges w c))))
                         (children (nodes w (tree_root self)))) of
             Inl e \<Rightarrow> (Raise e, self, w)
           | Inr action_idx \<Rightarrow>
               (let action = children (nodes w (tree_root self)) ! action_idx;
                    ch = child (edges w action);
                    w1 = w\<lparr>nodes := (nodes w)(ch := (nodes w ch)\<lparr>children := []\<rparr>)\<rparr>
                in (Return ch, self, w1)))"

text \<open>The selection phase of \<^verbatim>\<open>_fit\<close> (lines 163 to 167).\<close>

fun selection :: "nat \<Rightarrow> node_ref \<Rightarrow> 'g world \<Rightarrow> node_ref outcome \<times> 'g world" where
  "selection 0 cur_node w = (OutOfFuel, w)"
| "selection (Suc fuel) cur_node w =
     (if is_terminal w cur_node then (Return cur_node, w)
      else case softmax (map (\<lambda>c. edge_criteria w c (3 / 10)) (children (nodes w cur_node))) of
             Inl e \<Rightarrow> (Raise e, w)
           | Inr weights \<Rightarrow>
               bind (random_choice_p (children (nodes w cur_node)) weights w)
                 (\<lambda>action w1. selection fuel (child (edges w1 action)) w1))"

text \<open>
  \<^verbatim>\<open>opponent.turn(node)\<close>: the opponent returns a new node, built by
  \<^verbatim>\<open>TreeNode.__init__\<close>, holding its answer; it changes no object of the tree.
  The model builds the node with \<open>parent_edge\<close> \<open>None\<close>; whatever the opponent
  passes to the constructor, the engine does not assign the field afterwards.
\<close>

definition opponent_reply :: "('g, 'p) game \<Rightarrow> node_ref \<Rightarrow> 'g world \<Rightarrow> node_ref \<times> 'g world" where
  "opponent_reply G node w =
     (let n = next_node w
      in (n, w\<lparr>nodes := (nodes w)(n := TreeNode_init None (opponent G (state (nodes w node)))),
               next_node := Suc n\<rparr>))"

text \<open>
  Lines 181 and 182: the opponent answers the child, and a new edge to the answer becomes
  the only child edge of the child.
\<close>

definition attach_reply :: "('g, 'p) game \<Rightarrow> node_ref \<Rightarrow> 'g world \<Rightarrow> 'g world" where
  "attach_reply G child_node w =
     (let (grand_child_node, w1) = opponent_reply G child_node w;
          new_edge = next_edge w1;
          w2 = w1\<lparr>edges := (edges w1)(new_edge := TreeEdge_init 1 child_node grand_child_node),
                  next_edge := Suc new_edge\<rparr>;
          w3 = w2\<lparr>nodes := (nodes w2)(child_node := (nodes w2 child_node)
                   \<lparr>children := [new_edge]\<rparr>)\<rparr>
      in w3)"

text \<open>
  The loop of lines 178 to 182 over the children of the expanded node. Its body assigns
  only to the children of a child, so it runs over the list as \<^verbatim>\<open>expand\<close> left it.
\<close>

fun fold_opponent :: "('g, 'p) game \<Rightarrow> edge_ref list \<Rightarrow> 'g world \<Rightarrow> 'g world" where
  "fold_opponent G [] w = w"
| "fold_opponent G (child_edge # rest) w =
     (let child_node = child (edges w child_edge)
      in if \<not> is_finish G w child_node then fold_opponent G rest (attach_reply G child_node w)
         else fold_opponent G rest w)"

definition expansion :: "('g, 'p) game \<Rightarrow> node_ref \<Rightarrow> 'g world \<Rightarrow> unit outcome \<times> 'g world" where
  "expansion G cur_node w =
     bind (expand G cur_node w)
       (\<lambda>_ w1. (Return (), fold_opponent G (children (nodes w1 cur_node)) w1))"

text \<open>
  \<^verbatim>\<open>deepcopy(cur_node)\<close> copies every object that can be reached from the node,
  keeping the shape of the graph: through \<open>parent_edge\<close> that is the whole tree. The
  model gives every allocated object a twin, at its own address plus the number of objects
  allocated, with the references inside redirected to the twins. The twin of an object
  that cannot be reached from the node is one that nothing refers to.
\<close>

definition copy_node :: "nat \<Rightarrow> 'g TreeNode \<Rightarrow> 'g TreeNode" where
  "copy_node E nd =
     nd\<lparr>parent_edge := map_option (\<lambda>e. e + E) (parent_edge nd),
        children := map (\<lambda>e. e + E) (children nd)\<rparr>"

definition copy_edge :: "nat \<Rightarrow> TreeEdge \<Rightarrow> TreeEdge" where
  "copy_edge N ed = ed\<lparr>parent := parent ed + N, child := child ed + N\<rparr>"

definition deepcopy :: "node_ref \<Rightarrow> 'g world \<Rightarrow> node_ref \<times> 'g world" where
  "deepcopy node w =
     (let N = next_node w; E = next_edge w
      in (node + N,
          w\<lparr>nodes := (\<lambda>r. if N \<le> r \<and> r < 2 * N then copy_node E (nodes w (r - N)) else nodes w r),
            edges := (\<lambda>e. if E \<le> e \<and> e < 2 * E then copy_edge N (edges w (e - E)) else edges w e),
            next_node := 2 * N,
            next_edge := 2 * E\<rparr>))"

text \<open>The roll-out loop (lines 189 to 202); it returns the node the simulation ends at.\<close>

fun roll_out ::
  "nat \<Rightarrow> ('g, 'p) game \<Rightarrow> bool \<Rightarrow> bool \<Rightarrow> node_ref \<Rightarrow> 'g world \<Rightarrow> node_ref outcome \<times> 'g world" where
  "roll_out 0 G first_turn opponent_turn roll_out_node w = (OutOfFuel, w)"
| "roll_out (Suc fuel) G first_turn opponent_turn roll_out_node w =
     (if is_finish G w roll_out_node then (Return roll_out_node, w)
      else if \<not> opponent_turn then
        bind (expand G roll_out_node w) (\<lambda>_ w1.
        bind (random_choice (children (nodes w1 roll_out_node)) w1) (\<lambda>action w2.
          roll_out fuel G first_turn (\<not> opponent_turn) (child (edges w2 action)) w2))
      else if first_turn then
        (case children (nodes w roll_out_node) of
           [] \<Rightarrow> (Raise IndexError, w)
         | e # _ \<Rightarrow> roll_out fuel G False (\<not> opponent_turn) (child (edges w e)) w)
      else
        (let (reply, w1) = opponent_reply G roll_out_node w
         in roll_out fuel G first_turn (\<not> opponent_turn) reply w1))"

definition roll_out_phase ::
  "nat \<Rightarrow> ('g, 'p) game \<Rightarrow> node_ref \<Rightarrow> 'g world \<Rightarrow> node_ref outcome \<times> 'g world" where
  "roll_out_phase fuel G cur_node w =
     (let (roll_out_node, w1) = deepcopy cur_node w
      in roll_out fuel G True True roll_out_node w1)"

text \<open>
  \<^verbatim>\<open>MonteCarloTree._fit\<close> (lines 156 to 204). \<open>fuel\<close> bounds the iterations of
  each of the two \<^verbatim>\<open>while\<close> loops, \<open>depth\<close> is the recursion depth left to
  \<^verbatim>\<open>update\<close>.
\<close>

definition fit_once ::
  "nat \<Rightarrow> nat \<Rightarrow> ('g, 'p) game \<Rightarrow> MonteCarloTree \<Rightarrow> 'g world \<Rightarrow> unit outcome \<times> 'g world" where
  "fit_once fuel depth G self w =
     bind (selection fuel (tree_root self) w) (\<lambda>cur_node w1.
       if is_finish G w1 cur_node then
         (case parent_edge (nodes w1 cur_node) of
            None \<Rightarrow> (Return (), w1)
          | Some pe \<Rightarrow>
              update depth pe
                (get_reward G (state (nodes w1 cur_node)) (node_turn G (state (nodes w1 cur_node))))
                w1)
       else
         (let sel_node = cur_node
          in bind (expansion G cur_node w1) (\<lambda>_ w2.
             bind (random_choice (children (nodes w2 cur_node)) w2) (\<lambda>sel_action w3.
             bind (roll_out_phase fuel G (child (edges w3 sel_action)) w3) (\<lambda>roll_out_node w4.
               update depth sel_action
                 (get_reward G (state (nodes w4 roll_out_node))
                    (node_turn G (state (nodes w4 sel_node))))
                 w4)))))"

text \<open>\<^verbatim>\<open>MonteCarloTree.fit\<close> (lines 146 to 154).\<close>

fun fit ::
  "nat \<Rightarrow> nat \<Rightarrow> ('g, 'p) game \<Rightarrow> MonteCarloTree \<Rightarrow> nat \<Rightarrow> 'g world \<Rightarrow> unit outcome \<times> 'g world" where
  "fit fuel depth G self 0 w = (Return (), w)"
| "fit fuel depth G self (Suc num_iter) w =
     bind (fit_once fuel depth G self w) (\<lambda>_ w1. fit fuel depth G self num_iter w1)"

section \<open>Example worlds\<close>

text \<open>
  A chain of three nodes, the root first: node 0, edge 0, node 1, edge 1, node 2.
  \<open>ex_stats\<close> is the same chain after some visits.
\<close>

definition ex_chain :: "nat world" where
  "ex_chain =
     \<lparr>nodes = (\<lambda>_. TreeNode_init None 0)
        (0 := \<lparr>parent_edge = None, children = [0], state = 2\<rparr>,
         1 := \<lparr>parent_edge = Some 0, children = [1], state = 1\<rparr>,
         2 := \<lparr>parent_edge = Some 1, children = [], state = 0\<rparr>),
      edges = (\<lambda>_. TreeEdge_init 0 0 0)
        (0 := TreeEdge_init (1 / 2) 0 1,
         1 := TreeEdge_init (1 / 2) 1 2),
      next_node = 3, next_edge = 2, rng = (\<lambda>_. 0), rng_pos = 0\<rparr>"

definition ex_stats :: "nat world" where
  "ex_stats =
     ex_chain\<lparr>edges := (edges ex_chain)
       (0 := \<lparr>prior = 1 / 2, visit_count = 4, value_e = 2, parent = 0, child = 1\<rparr>,
        1 := \<lparr>prior = 1 / 2, visit_count = 1, value_e = 3, parent = 1, child = 2\<rparr>)\<rparr>"

text \<open>
  A counting game: a position is a number, a move takes one or two away, position 0 is
  finished, the opponent always takes one, and the players are told apart by parity.
\<close>

definition ex_game :: "(nat, bool) game" where
  "ex_game =
     \<lparr>get_available_child_nodes =
        (\<lambda>g. if g = 0 then [] else if g = 1 then [(0, 1 / 2)] else [(g - 1, 1 / 2), (g - 2, 1 / 4)]),
      get_reward = (\<lambda>g p. if p then 1 else 0),
      node_turn = (\<lambda>g. even g),
      node_eq = (\<lambda>g h. g = h),
      opponent = (\<lambda>g. g - 1)\<rparr>"

text \<open>A root whose three child edges have the averages 0.2, 0.9 and 0.5.\<close>

definition ex_commit :: "nat world" where
  "ex_commit =
     \<lparr>nodes = (\<lambda>_. TreeNode_init None 0)
        (0 := \<lparr>parent_edge = None, children = [0, 1, 2], state = 7\<rparr>,
         1 := \<lparr>parent_edge = Some 0, children = [], state = 6\<rparr>,
         2 := \<lparr>parent_edge = Some 1, children = [3], state = 5\<rparr>,
         3 := \<lparr>parent_edge = Some 2, children = [], state = 4\<rparr>,
         4 := \<lparr>parent_edge = None, children = [], state = 3\<rparr>),
      edges = (\<lambda>_. TreeEdge_init 0 0 0)
        (0 := \<lparr>prior = 1 / 2, visit_count = 9, value_e = 2, parent = 0, child = 1\<rparr>,
         1 := \<lparr>prior = 1 / 4, visit_count = 9, value_e = 9, parent = 0, child = 2\<rparr>,
         2 := \<lparr>prior = 1 / 4, visit_count = 9, value_e = 5, parent = 0, child = 3\<rparr>,
         3 := \<lparr>prior = 1, visit_count = 3, value_e = 1, parent = 2, child = 4\<rparr>),
      next_node = 5, next_edge = 4, rng = (\<lambda>_. 0), rng_pos = 0\<rparr>"

definition ex_tree :: MonteCarloTree where
  "ex_tree = \<lparr>tree_root = 0\<rparr>"

text \<open>
  Trees of a single node that has not been expanded: at position 2 (\<open>ex_leaf\<close>), at the
  finished position 0 (\<open>ex_done\<close>) and at position 3 (\<open>ex_start\<close>).
\<close>

definition ex_leaf :: "nat world" where
  "ex_leaf =
     \<lparr>nodes = (\<lambda>_. TreeNode_init None 0)(0 := TreeNode_init None 2),
      edges = (\<lambda>_. TreeEdge_init 0 0 0),
      next_node = 1, next_edge = 0, rng = (\<lambda>_. 0), rng_pos = 0\<rparr>"

definition ex_done :: "nat world" where
  "ex_done =
     \<lparr>nodes = (\<lambda>_. TreeNode_init None 0),
      edges = (\<lambda>_. TreeEdge_init 0 0 0),
      next_node = 1, next_edge = 0, rng = (\<lambda>_. 0), rng_pos = 0\<rparr>"

definition ex_start :: "nat world" where
  "ex_start =
     \<lparr>nodes = (\<lambda>_. TreeNode_init None 0)(0 := TreeNode_init None 3),
      edges = (\<lambda>_. TreeEdge_init 0 0 0),
      next_node = 1, next_edge = 0, rng = (\<lambda>_. 0), rng_pos = 0\<rparr>"

section \<open>Properties of update\<close>

lemma update_nodes: "nodes (snd (update d e r w)) = nodes w"
  by (induction d e r w rule: update.induct) (auto simp: Let_def split: option.splits)

lemma update_parent: "parent (edges (snd (update d e r w)) x) = parent (edges w x)"
  by (induction d e r w rule: update.induct) (auto simp: Let_def split: option.splits)

lemma reached_cong:
  "nodes w' = nodes w \<Longrightarrow> (\<And>x. parent (edges w' x) = parent (edges w x)) \<Longrightarrow>
   reached d w' e = reached d w e"
  by (induction d arbitrary: e) (auto split: option.splits)

lemma reached_stats:
  "reached d (w\<lparr>edges := (edges w)(e := (edges w e)\<lparr>value_e := v, visit_count := n\<rparr>)\<rparr>) y
     = reached d w y"
  by (rule reached_cong) auto

lemma update_visit_count:
  "visit_count (edges (snd (update d e r w)) x) =
     visit_count (edges w x) + length (filter (\<lambda>y. y = x) (reached d w e))"
proof (induction d e r w rule: update.induct)
  case (1 self reward w)
  then show ?case by simp
next
  case (2 depth self reward w)
  let ?w2 = "w\<lparr>edges := (edges w)(self := (edges w self)
              \<lparr>value_e := value_e (edges w self) + reward,
               visit_count := visit_count (edges w self) + 1\<rparr>)\<rparr>"
  show ?case
  proof (cases "parent_edge (nodes w (parent (edges w self)))")
    case None
    then show ?thesis by (simp add: Let_def)
  next
    case (Some pe)
    have "visit_count (edges (snd (update depth pe reward ?w2)) x) =
            visit_count (edges ?w2 x) + length (filter (\<lambda>y. y = x) (reached depth ?w2 pe))"
      using "2.IH"[of _ ?w2 pe] Some by (simp add: Let_def)
    then show ?thesis using Some by (simp add: Let_def reached_stats)
  qed
qed

lemma update_value:
  "value_e (edges (snd (update d e r w)) x) =
     value_e (edges w x) + r * real (length (filter (\<lambda>y. y = x) (reached d w e)))"
proof (induction d e r w rule: update.induct)
  case (1 self reward w)
  then show ?case by simp
next
  case (2 depth self reward w)
  let ?w2 = "w\<lparr>edges := (edges w)(self := (edges w self)
              \<lparr>value_e := value_e (edges w self) + reward,
               visit_count := visit_count (edges w self) + 1\<rparr>)\<rparr>"
  show ?case
  proof (cases "parent_edge (nodes w (parent (edges w self)))")
    case None
    then show ?thesis by (simp add: Let_def)
  next
    case (Some pe)
    have "value_e (edges (snd (update depth pe reward ?w2)) x) =
            value_e (edges ?w2 x) + reward * real (length (filter (\<lambda>y. y = x) (reached depth ?w2 pe)))"
      using "2.IH"[of _ ?w2 pe] Some by (simp add: Let_def)
    then show ?thesis using Some by (simp add: Let_def reached_stats algebra_simps)
  qed
qed

lemma update_reached: "reached d (snd (update k e r w)) y = reached d w y"
  by (rule reached_cong) (simp_all add: update_nodes update_parent)

lemma received_update: "received d (snd (update k e r w)) calls x = received d w calls x"
  by (induction calls) (auto simp: update_reached)

lemma sum_list_const: "sum_list (map (\<lambda>_. r) xs) = r * real (length xs)"
  by (induction xs) (auto simp: algebra_simps)

lemma updates_stats:
  "visit_count (edges (updates d calls w) x) = visit_count (edges w x) + length (received d w calls x) \<and>
   value_e (edges (updates d calls w) x) = value_e (edges w x) + sum_list (received d w calls x)"
proof (induction calls arbitrary: w)
  case Nil
  then show ?case by simp
next
  case (Cons c calls)
  obtain e r where c: "c = (e, r)" by (cases c)
  show ?case
    using Cons.IH[of "snd (update d e r w)"]
    by (simp add: c received_update update_visit_count update_value sum_list_const)
qed

lemma update_outcome:
  "fst (update d e r w) = (if length (reached (Suc d) w e) \<le> d then Return () else Raise RecursionError)"
proof (induction d e r w rule: update.induct)
  case (1 self reward w)
  then show ?case by simp
next
  case (2 depth self reward w)
  let ?w2 = "w\<lparr>edges := (edges w)(self := (edges w self)
              \<lparr>value_e := value_e (edges w self) + reward,
               visit_count := visit_count (edges w self) + 1\<rparr>)\<rparr>"
  show ?case
  proof (cases "parent_edge (nodes w (parent (edges w self)))")
    case None
    then show ?thesis by (simp add: Let_def)
  next
    case (Some pe)
    have "fst (update depth pe reward ?w2) =
           (if length (reached (Suc depth) ?w2 pe) \<le> depth then Return () else Raise RecursionError)"
      using "2.IH"[of _ ?w2 pe] Some by (simp add: Let_def)
    then show ?thesis using Some reached_stats[of "Suc depth" w self _ _ pe]
      by (simp add: Let_def del: reached.simps add: reached.simps(2)[of "Suc depth"])
  qed
qed

text \<open>
  C1: a call \<^verbatim>\<open>update(reward)\<close> adds the reward to the accumulated value of the edge
  and one to its visit count, and hands the same reward on to the edge into the parent node
  when there is one; so over any sequence of calls an edge gains one visit and the reward for
  every call that reaches it, directly or by propagation. For an edge that starts at 0 and 0,
  as \<^verbatim>\<open>TreeEdge.__init__\<close> leaves it, the visit count is the number of those calls
  and the accumulated value is the sum of their rewards.
\<close>

theorem update_conservation:
  "update (Suc depth) e reward w =
     (let w' = w\<lparr>edges := (edges w)(e := (edges w e)
                  \<lparr>value_e := value_e (edges w e) + reward,
                   visit_count := visit_count (edges w e) + 1\<rparr>)\<rparr>
      in case parent_edge (nodes w (parent (edges w e))) of
           None \<Rightarrow> (Return (), w')
         | Some pe \<Rightarrow> update depth pe reward w') \<and>
   visit_count (edges (updates depth calls w) x)
     = visit_count (edges w x) + length (received depth w calls x) \<and>
   value_e (edges (updates depth calls w) x)
     = value_e (edges w x) + sum_list (received depth w calls x) \<and>
   (visit_count (edges w x) = 0 \<and> value_e (edges w x) = 0 \<longrightarrow>
      visit_count (edges (updates depth calls w) x) = length (received depth w calls x) \<and>
      value_e (edges (updates depth calls w) x) = sum_list (received depth w calls x))"
  using updates_stats[of depth calls w x] by (simp add: Let_def split: option.split)

theorem update_conservation_witness:
  "received 5 ex_chain [(1, 1), (0, 2), (1, 3)] 0 = [1, 2, 3] \<and>
   visit_count (edges (updates 5 [(1, 1), (0, 2), (1, 3)] ex_chain) 0) = 3 \<and>
   value_e (edges (updates 5 [(1, 1), (0, 2), (1, 3)] ex_chain) 0) = 6 \<and>
   received 5 ex_chain [(1, 1), (0, 2), (1, 3)] 1 = [1, 3] \<and>
   visit_count (edges (updates 5 [(1, 1), (0, 2), (1, 3)] ex_chain) 1) = 2 \<and>
   value_e (edges (updates 5 [(1, 1), (0, 2), (1, 3)] ex_chain) 1) = 4"
proof -
  have r5: "reached 5 ex_chain (Suc 0) = [1, 0]" "reached 5 ex_chain 0 = [0]"
    by (simp_all add: ex_chain_def TreeEdge_init_def eval_nat_numeral)
  have r0: "received 5 ex_chain [(1, 1), (0, 2), (1, 3)] 0 = [1, 2, 3]"
    by (simp add: r5)
  have r1: "received 5 ex_chain [(1, 1), (0, 2), (1, 3)] 1 = [1, 3]"
    by (simp add: r5)
  have z: "visit_count (edges ex_chain 0) = 0" "value_e (edges ex_chain 0) = 0"
     "visit_count (edges ex_chain 1) = 0" "value_e (edges ex_chain 1) = 0"
    by (simp_all add: ex_chain_def TreeEdge_init_def)
  show ?thesis
    using update_conservation[of 5 0 0 ex_chain "[(1, 1), (0, 2), (1, 3)]" 0]
          update_conservation[of 5 0 0 ex_chain "[(1, 1), (0, 2), (1, 3)]" 1]
    by (simp only: r0 r1 z) simp
qed

section \<open>Properties of edge_criteria\<close>

text \<open>
  C2: the selection score of an edge with prior \<open>p\<close>, accumulated value \<open>v\<close> and visit
  count \<open>n\<close> is \<open>v / (1 + n) + c * p * sqrt parent_visits / (1 + n)\<close>, where
  \<open>parent_visits\<close> is the visit count of the edge into the parent node, and 0 when the
  parent node has no parent edge.
\<close>

theorem edge_criteria_formula:
  "edge_criteria w edge c =
     value_e (edges w edge) / (1 + real (visit_count (edges w edge)))
     + c * prior (edges w edge)
         * sqrt (real (case parent_edge (nodes w (parent (edges w edge))) of
                         None \<Rightarrow> 0
                       | Some pe \<Rightarrow> visit_count (edges w pe)))
         / (1 + real (visit_count (edges w edge)))"
  by (simp add: edge_criteria_def Let_def)

theorem edge_criteria_formula_witness:
  "edge_criteria ex_stats 1 (3 / 10) = 33 / 20 \<and> edge_criteria ex_stats 0 (3 / 10) = 2 / 5"
  using edge_criteria_formula[of ex_stats 1 "3 / 10"] edge_criteria_formula[of ex_stats 0 "3 / 10"]
  by (simp add: ex_stats_def ex_chain_def TreeEdge_init_def)

section \<open>Properties of turn\<close>

lemma argmax_from_spec:
  "argmax_from bi b i xs = r \<Longrightarrow>
     (r = bi \<and> (\<forall>x \<in> set xs. x \<le> b)) \<or>
     (i \<le> r \<and> r < i + length xs \<and> b < xs ! (r - i) \<and>
      (\<forall>j < length xs. xs ! j \<le> xs ! (r - i)) \<and> (\<forall>j < r - i. xs ! j < xs ! (r - i)))"
proof (induction xs arbitrary: bi b i)
  case Nil
  then show ?case by simp
next
  case (Cons x xs)
  show ?case
  proof (cases "b < x")
    case True
    then have "argmax_from i x (Suc i) xs = r" using Cons.prems by simp
    from Cons.IH[OF this] show ?thesis
    proof
      assume a: "r = i \<and> (\<forall>y \<in> set xs. y \<le> x)"
      then have "\<forall>j < length (x # xs). (x # xs) ! j \<le> x"
        by (auto simp: nth_Cons split: nat.splits)
      with a True show ?thesis by simp
    next
      assume a: "Suc i \<le> r \<and> r < Suc i + length xs \<and> x < xs ! (r - Suc i) \<and>
          (\<forall>j<length xs. xs ! j \<le> xs ! (r - Suc i)) \<and> (\<forall>j<r - Suc i. xs ! j < xs ! (r - Suc i))"
      then obtain k where k: "r - i = Suc k" "r - Suc i = k" by (cases "r - i") auto
      have "\<forall>j < length (x # xs). (x # xs) ! j \<le> xs ! k"
        using a k by (auto simp: nth_Cons split: nat.splits)
      moreover have "\<forall>j < Suc k. (x # xs) ! j < xs ! k"
        using a k by (auto simp: nth_Cons split: nat.splits)
      ultimately show ?thesis using a k True by auto
    qed
  next
    case False
    then have "argmax_from bi b (Suc i) xs = r" using Cons.prems by simp
    from Cons.IH[OF this] show ?thesis
    proof
      assume a: "r = bi \<and> (\<forall>y \<in> set xs. y \<le> b)"
      with False show ?thesis by auto
    next
      assume a: "Suc i \<le> r \<and> r < Suc i + length xs \<and> b < xs ! (r - Suc i) \<and>
          (\<forall>j<length xs. xs ! j \<le> xs ! (r - Suc i)) \<and> (\<forall>j<r - Suc i. xs ! j < xs ! (r - Suc i))"
      then obtain k where k: "r - i = Suc k" "r - Suc i = k" by (cases "r - i") auto
      have "\<forall>j < length (x # xs). (x # xs) ! j \<le> xs ! k"
        using a k False by (auto simp: nth_Cons split: nat.splits)
      moreover have "\<forall>j < Suc k. (x # xs) ! j < xs ! k"
        using a k False by (auto simp: nth_Cons split: nat.splits)
      ultimately show ?thesis using a k by auto
    qed
  qed
qed

lemma argmax_first_max:
  assumes "xs \<noteq> []"
  shows "\<exists>i < length xs. argmax xs = Inr i \<and> (\<forall>j < length xs. xs ! j \<le> xs ! i) \<and>
           (\<forall>j < i. xs ! j < xs ! i)"
proof -
  obtain x rest where xs: "xs = x # rest" using assms by (cases xs) auto
  define r where "r = argmax_from 0 x 1 rest"
  have am: "argmax xs = Inr r" by (simp add: argmax_def xs r_def)
  from argmax_from_spec[OF r_def[symmetric]]
  show ?thesis
  proof
    assume a: "r = 0 \<and> (\<forall>y \<in> set rest. y \<le> x)"
    then have "\<forall>j < length xs. xs ! j \<le> xs ! 0"
      by (auto simp: xs nth_Cons split: nat.splits)
    with a am show ?thesis by (auto simp: xs)
  next
    assume a: "1 \<le> r \<and> r < 1 + length rest \<and> x < rest ! (r - 1) \<and>
       (\<forall>j<length rest. rest ! j \<le> rest ! (r - 1)) \<and> (\<forall>j<r - 1. rest ! j < rest ! (r - 1))"
    then obtain k where k: "r = Suc k" by (cases r) auto
    have "\<forall>j < length xs. xs ! j \<le> xs ! r"
      using a k by (auto simp: xs nth_Cons split: nat.splits)
    moreover have "\<forall>j < r. xs ! j < xs ! r"
      using a k by (auto simp: xs nth_Cons split: nat.splits)
    ultimately show ?thesis using a am k by (auto simp: xs)
  qed
qed

text \<open>
  C3: \<^verbatim>\<open>turn\<close> raises \<^verbatim>\<open>AssertionError\<close>, changing nothing, when its
  argument is not equal to the root. When it is equal and the root has children, the call
  picks the first child edge among those of greatest \<open>value / (1 + visit_count)\<close>
  (every other child is at most as good, every earlier one strictly worse), empties the
  children of that edge's child node and returns that node; the tree object, and with it
  its root field, comes back as it was.
\<close>

theorem turn_commit:
  "(\<not> node_eq G (state (nodes w (tree_root self))) (state (nodes w node)) \<longrightarrow>
      turn G self node w = (Raise AssertionError, self, w)) \<and>
   (node_eq G (state (nodes w (tree_root self))) (state (nodes w node)) \<and>
      children (nodes w (tree_root self)) \<noteq> [] \<longrightarrow>
      (\<exists>i < length (children (nodes w (tree_root self))).
         (\<forall>j < length (children (nodes w (tree_root self))).
            value_e (edges w (children (nodes w (tree_root self)) ! j))
              / (1 + real (visit_count (edges w (children (nodes w (tree_root self)) ! j))))
            \<le> value_e (edges w (children (nodes w (tree_root self)) ! i))
              / (1 + real (visit_count (edges w (children (nodes w (tree_root self)) ! i))))) \<and>
         (\<forall>j < i.
            value_e (edges w (children (nodes w (tree_root self)) ! j))
              / (1 + real (visit_count (edges w (children (nodes w (tree_root self)) ! j))))
            < value_e (edges w (children (nodes w (tree_root self)) ! i))
              / (1 + real (visit_count (edges w (children (nodes w (tree_root self)) ! i))))) \<and>
         turn G self node w =
           (Return (child (edges w (children (nodes w (tree_root self)) ! i))),
            self,
            w\<lparr>nodes := (nodes w)
                 (child (edges w (children (nodes w (tree_root self)) ! i)) :=
                    (nodes w (child (edges w (children (nodes w (tree_root self)) ! i))))
                      \<lparr>children := []\<rparr>)\<rparr>)))"
proof (intro conjI impI)
  assume "\<not> node_eq G (state (nodes w (tree_root self))) (state (nodes w node))"
  then show "turn G self node w = (Raise AssertionError, self, w)"
    by (simp add: turn_def)
next
  let ?cs = "children (nodes w (tree_root self))"
  let ?avg = "\<lambda>c. value_e (edges w c) / (1 + real (visit_count (edges w c)))"
  assume a: "node_eq G (state (nodes w (tree_root self))) (state (nodes w node)) \<and> ?cs \<noteq> []"
  then have ne: "map ?avg ?cs \<noteq> []" by simp
  from argmax_first_max[OF ne] obtain i where i:
    "i < length ?cs" "argmax (map ?avg ?cs) = Inr i"
    "\<forall>j < length ?cs. map ?avg ?cs ! j \<le> map ?avg ?cs ! i"
    "\<forall>j < i. map ?avg ?cs ! j < map ?avg ?cs ! i"
    by auto
  have le: "\<forall>j < length ?cs. ?avg (?cs ! j) \<le> ?avg (?cs ! i)"
    using i(1,3) by auto
  have lt: "\<forall>j < i. ?avg (?cs ! j) < ?avg (?cs ! i)"
    using i(1,4) by auto
  have t: "turn G self node w =
           (Return (child (edges w (?cs ! i))), self,
            w\<lparr>nodes := (nodes w)(child (edges w (?cs ! i)) :=
                 (nodes w (child (edges w (?cs ! i))))\<lparr>children := []\<rparr>)\<rparr>)"
    using a i(2) by (simp add: turn_def Let_def)
  show "\<exists>i < length ?cs.
         (\<forall>j < length ?cs. ?avg (?cs ! j) \<le> ?avg (?cs ! i)) \<and>
         (\<forall>j < i. ?avg (?cs ! j) < ?avg (?cs ! i)) \<and>
         turn G self node w =
           (Return (child (edges w (?cs ! i))), self,
            w\<lparr>nodes := (nodes w)(child (edges w (?cs ! i)) :=
                 (nodes w (child (edges w (?cs ! i))))\<lparr>children := []\<rparr>)\<rparr>)"
    using i(1) le lt t by blast
qed

lemma ex_commit_avgs:
  "map (\<lambda>c. value_e (edges ex_commit c) / (1 + real (visit_count (edges ex_commit c))))
     (children (nodes ex_commit 0)) = [2 / 10, 9 / 10, 5 / 10]"
  by (simp add: ex_commit_def)

theorem turn_commit_witness:
  "node_eq ex_game (state (nodes ex_commit (tree_root ex_tree))) (state (nodes ex_commit 0)) \<and>
   children (nodes ex_commit (tree_root ex_tree)) \<noteq> [] \<and>
   fst (turn ex_game ex_tree 0 ex_commit) = Return 2 \<and>
   fst (snd (turn ex_game ex_tree 0 ex_commit)) = ex_tree \<and>
   children (nodes (snd (snd (turn ex_game ex_tree 0 ex_commit))) 2) = [] \<and>
   \<not> node_eq ex_game (state (nodes ex_commit (tree_root ex_tree))) (state (nodes ex_commit 1)) \<and>
   turn ex_game ex_tree 1 ex_commit = (Raise AssertionError, ex_tree, ex_commit)"
proof -
  have eq: "node_eq ex_game (state (nodes ex_commit (tree_root ex_tree))) (state (nodes ex_commit 0))"
    by (simp add: ex_game_def ex_tree_def)
  have ne: "children (nodes ex_commit (tree_root ex_tree)) \<noteq> []"
    by (simp add: ex_commit_def ex_tree_def)
  have neq: "\<not> node_eq ex_game (state (nodes ex_commit (tree_root ex_tree))) (state (nodes ex_commit 1))"
    by (simp add: ex_game_def ex_tree_def ex_commit_def)
  have am: "argmax [2 / 10, 9 / 10, 5 / 10] = Inr 1"
    by (simp add: argmax_def)
  have t: "turn ex_game ex_tree 0 ex_commit =
     (Return 2, ex_tree,
      ex_commit\<lparr>nodes := (nodes ex_commit)(2 := (nodes ex_commit 2)\<lparr>children := []\<rparr>)\<rparr>)"
    using eq by (simp add: turn_def ex_tree_def ex_commit_avgs[simplified] am[simplified] Let_def)
       (simp add: ex_commit_def)
  show ?thesis
    using turn_commit[of ex_game ex_commit ex_tree 1] turn_commit[of ex_game ex_commit ex_tree 0]
      eq ne neq t
    by simp
qed

text \<open>
  C10: \<^verbatim>\<open>turn\<close> called with the root while the root has no children raises
  \<^verbatim>\<open>ValueError\<close> (the \<^verbatim>\<open>argmax\<close> of an empty sequence) and returns no node.
\<close>

theorem turn_no_children:
  "node_eq G (state (nodes w (tree_root self))) (state (nodes w node)) \<Longrightarrow>
   children (nodes w (tree_root self)) = [] \<Longrightarrow>
   turn G self node w = (Raise ValueError, self, w)"
  by (simp add: turn_def argmax_def)

theorem turn_no_children_witness:
  "node_eq ex_game (state (nodes ex_leaf (tree_root ex_tree))) (state (nodes ex_leaf 0)) \<and>
   children (nodes ex_leaf (tree_root ex_tree)) = [] \<and>
   turn ex_game ex_tree 0 ex_leaf = (Raise ValueError, ex_tree, ex_leaf)"
proof -
  have eq: "node_eq ex_game (state (nodes ex_leaf (tree_root ex_tree))) (state (nodes ex_leaf 0))"
    by (simp add: ex_game_def ex_tree_def)
  have em: "children (nodes ex_leaf (tree_root ex_tree)) = []"
    by (simp add: ex_leaf_def ex_tree_def TreeNode_init_def)
  show ?thesis using turn_no_children[OF eq em] eq em by simp
qed

section \<open>Properties of expand\<close>

lemma upt_shift: "[n ..< n + Suc k] = n # [Suc n ..< Suc n + k]"
  using upt_conv_Cons[of n "n + Suc k"] by (simp del: upt_Suc)

lemma nth_shift: "n \<le> r \<Longrightarrow> r \<noteq> n \<Longrightarrow> (a # xs) ! (r - n) = xs ! (r - Suc n)"
proof -
  assume "n \<le> r" "r \<noteq> n"
  then obtain k where "r - n = Suc k" "r - Suc n = k" by (cases "r - n") auto
  then show ?thesis by simp
qed

lemma alloc_nodes_Cons:
  "alloc_nodes ((g, p) # rest) w =
     ((next_node w, p) #
        fst (alloc_nodes rest (w\<lparr>nodes := (nodes w)(next_node w := TreeNode_init None g),
                                 next_node := Suc (next_node w)\<rparr>)),
      snd (alloc_nodes rest (w\<lparr>nodes := (nodes w)(next_node w := TreeNode_init None g),
                               next_node := Suc (next_node w)\<rparr>)))"
  by (simp add: Let_def case_prod_beta)

lemma alloc_nodes_fst:
  "fst (alloc_nodes specs w) = zip [next_node w ..< next_node w + length specs] (map snd specs)"
proof (induction specs arbitrary: w)
  case Nil
  then show ?case by simp
next
  case (Cons a specs)
  obtain g p where a: "a = (g, p)" by (cases a)
  show ?case
    unfolding a alloc_nodes_Cons using upt_shift[of "next_node w" "length specs"]
    by (simp add: Cons.IH del: upt_Suc)
qed

lemma alloc_nodes_frame:
  "edges (snd (alloc_nodes specs w)) = edges w \<and>
   next_edge (snd (alloc_nodes specs w)) = next_edge w \<and>
   rng (snd (alloc_nodes specs w)) = rng w \<and>
   rng_pos (snd (alloc_nodes specs w)) = rng_pos w \<and>
   next_node (snd (alloc_nodes specs w)) = next_node w + length specs"
proof (induction specs arbitrary: w)
  case Nil
  then show ?case by simp
next
  case (Cons a specs)
  obtain g p where a: "a = (g, p)" by (cases a)
  show ?case unfolding a alloc_nodes_Cons by (simp add: Cons.IH)
qed

lemma alloc_nodes_nodes:
  "nodes (snd (alloc_nodes specs w)) r =
     (if next_node w \<le> r \<and> r < next_node w + length specs
      then TreeNode_init None (fst (specs ! (r - next_node w)))
      else nodes w r)"
proof (induction specs arbitrary: w r)
  case Nil
  then show ?case by auto
next
  case (Cons a specs)
  obtain g p where a: "a = (g, p)" by (cases a)
  show ?case
  proof (cases "r = next_node w")
    case True
    then show ?thesis unfolding a alloc_nodes_Cons by (simp add: Cons.IH)
  next
    case False
    then show ?thesis unfolding a alloc_nodes_Cons
      using nth_shift[of "next_node w" r "(g, p)" specs]
      by (auto simp: Cons.IH)
  qed
qed

lemma expand_loop_Cons:
  "expand_loop self ((n, p) # rest) w =
     expand_loop self rest
       (w\<lparr>edges := (edges w)(next_edge w := TreeEdge_init p self n),
          next_edge := Suc (next_edge w),
          nodes := ((nodes w)(n := (nodes w n)\<lparr>parent_edge := Some (next_edge w)\<rparr>))
                     (self := (((nodes w)(n := (nodes w n)\<lparr>parent_edge := Some (next_edge w)\<rparr>)) self)
                        \<lparr>children := children (((nodes w)(n := (nodes w n)
                             \<lparr>parent_edge := Some (next_edge w)\<rparr>)) self) @ [next_edge w]\<rparr>)\<rparr>)"
  by (simp add: Let_def)

lemma expand_loop_frame:
  "next_node (expand_loop self pairs w) = next_node w \<and>
   rng (expand_loop self pairs w) = rng w \<and>
   rng_pos (expand_loop self pairs w) = rng_pos w \<and>
   next_edge (expand_loop self pairs w) = next_edge w + length pairs"
proof (induction pairs arbitrary: w)
  case Nil
  then show ?case by simp
next
  case (Cons a pairs)
  obtain n p where a: "a = (n, p)" by (cases a)
  show ?case unfolding a expand_loop_Cons by (simp add: Cons.IH)
qed

lemma expand_loop_edges:
  "edges (expand_loop self pairs w) e =
     (if next_edge w \<le> e \<and> e < next_edge w + length pairs
      then TreeEdge_init (snd (pairs ! (e - next_edge w))) self (fst (pairs ! (e - next_edge w)))
      else edges w e)"
proof (induction pairs arbitrary: w e)
  case Nil
  then show ?case by auto
next
  case (Cons a pairs)
  obtain n p where a: "a = (n, p)" by (cases a)
  show ?case
  proof (cases "e = next_edge w")
    case True
    then show ?thesis unfolding a expand_loop_Cons by (simp add: Cons.IH)
  next
    case False
    then show ?thesis unfolding a expand_loop_Cons
      using nth_shift[of "next_edge w" e "(n, p)" pairs]
      by (auto simp: Cons.IH)
  qed
qed

text \<open>The nodes after the loop, when the new nodes sit at consecutive addresses from \<open>n0\<close>.\<close>

lemma expand_loop_nodes:
  "self < n0 \<Longrightarrow>
   nodes (expand_loop self (zip [n0 ..< n0 + length ps] ps) w) r =
     (if r = self
      then (nodes w self)\<lparr>children := children (nodes w self)
                                      @ [next_edge w ..< next_edge w + length ps]\<rparr>
      else if n0 \<le> r \<and> r < n0 + length ps
      then (nodes w r)\<lparr>parent_edge := Some (next_edge w + (r - n0))\<rparr>
      else nodes w r)"
proof (induction ps arbitrary: w n0 r)
  case Nil
  then show ?case by auto
next
  case (Cons p ps)
  have z: "zip [n0 ..< n0 + length (p # ps)] (p # ps) = (n0, p) # zip [Suc n0 ..< Suc n0 + length ps] ps"
    using upt_shift[of n0 "length ps"] by (simp del: upt_Suc)
  have lt: "self < Suc n0" using Cons.prems by simp
  have u: "[next_edge w ..< next_edge w + length (p # ps)]
            = next_edge w # [Suc (next_edge w) ..< Suc (next_edge w) + length ps]"
    using upt_shift[of "next_edge w" "length ps"] by (simp del: upt_Suc)
  show ?case
    unfolding z expand_loop_Cons Cons.IH[OF lt] u using Cons.prems
    by (cases "r = n0") (auto simp: Suc_diff_le)
qed

lemma expand_snd:
  "children (nodes w self) = [] \<Longrightarrow>
   expand G self w =
     (Return (),
      expand_loop self
        (zip [next_node w ..< next_node w + length (get_available_child_nodes G (state (nodes w self)))]
             (map snd (get_available_child_nodes G (state (nodes w self)))))
        (snd (alloc_nodes (get_available_child_nodes G (state (nodes w self))) w)))"
  using alloc_nodes_fst[of "get_available_child_nodes G (state (nodes w self))" w]
  by (simp add: expand_def available_child_nodes_def case_prod_beta)

lemma expand_frame:
  assumes "children (nodes w self) = []"
  shows "next_node (snd (expand G self w))
           = next_node w + length (get_available_child_nodes G (state (nodes w self)))"
    and "next_edge (snd (expand G self w))
           = next_edge w + length (get_available_child_nodes G (state (nodes w self)))"
    and "rng (snd (expand G self w)) = rng w"
    and "rng_pos (snd (expand G self w)) = rng_pos w"
  by (simp_all add: expand_snd[OF assms] expand_loop_frame alloc_nodes_frame)

lemma expand_edges:
  assumes "children (nodes w self) = []"
  shows "edges (snd (expand G self w)) e =
     (if next_edge w \<le> e \<and>
         e < next_edge w + length (get_available_child_nodes G (state (nodes w self)))
      then TreeEdge_init (snd (get_available_child_nodes G (state (nodes w self)) ! (e - next_edge w)))
             self (next_node w + (e - next_edge w))
      else edges w e)"
  by (auto simp: expand_snd[OF assms] expand_loop_edges alloc_nodes_frame)

lemma expand_nodes:
  assumes "children (nodes w self) = []" and "self < next_node w"
  shows "nodes (snd (expand G self w)) r =
     (if r = self
      then (nodes w self)\<lparr>children :=
             [next_edge w ..< next_edge w + length (get_available_child_nodes G (state (nodes w self)))]\<rparr>
      else if next_node w \<le> r \<and>
              r < next_node w + length (get_available_child_nodes G (state (nodes w self)))
      then \<lparr>parent_edge = Some (next_edge w + (r - next_node w)), children = [],
            state = fst (get_available_child_nodes G (state (nodes w self)) ! (r - next_node w))\<rparr>
      else nodes w r)"
proof -
  let ?acts = "get_available_child_nodes G (state (nodes w self))"
  have len: "length (map snd ?acts) = length ?acts" by simp
  show ?thesis
    using expand_loop_nodes[OF assms(2), of "map snd ?acts" "snd (alloc_nodes ?acts w)" r] assms
    by (auto simp: expand_snd[OF assms(1)] alloc_nodes_frame alloc_nodes_nodes TreeNode_init_def)
qed

text \<open>
  C6: \<^verbatim>\<open>expand\<close> on a node that has children raises \<^verbatim>\<open>AssertionError\<close> and
  leaves the store, so the children of the node, as it was. On a node without children it
  returns, and the node has one new edge per enumerated action, in the order of the
  enumeration: the edge carries the prior of the action and no visits, its parent is the
  node, its child is the new node of the action, and that node's \<open>parent_edge\<close> is the
  edge.
\<close>

theorem expand_once:
  "(children (nodes w self) \<noteq> [] \<longrightarrow> expand G self w = (Raise AssertionError, w)) \<and>
   (children (nodes w self) = [] \<and> self < next_node w \<longrightarrow>
      fst (expand G self w) = Return () \<and>
      length (children (nodes (snd (expand G self w)) self))
        = length (get_available_child_nodes G (state (nodes w self))) \<and>
      (\<forall>i < length (get_available_child_nodes G (state (nodes w self))).
         edges (snd (expand G self w)) (children (nodes (snd (expand G self w)) self) ! i)
           = TreeEdge_init (snd (get_available_child_nodes G (state (nodes w self)) ! i))
               self (next_node w + i) \<and>
         nodes (snd (expand G self w)) (next_node w + i)
           = \<lparr>parent_edge = Some (children (nodes (snd (expand G self w)) self) ! i),
              children = [],
              state = fst (get_available_child_nodes G (state (nodes w self)) ! i)\<rparr>))"
proof (intro conjI impI allI)
  assume "children (nodes w self) \<noteq> []"
  then show "expand G self w = (Raise AssertionError, w)" by (simp add: expand_def)
next
  assume a: "children (nodes w self) = [] \<and> self < next_node w"
  then show "fst (expand G self w) = Return ()" by (simp add: expand_snd)
next
  assume a: "children (nodes w self) = [] \<and> self < next_node w"
  then show "length (children (nodes (snd (expand G self w)) self))
        = length (get_available_child_nodes G (state (nodes w self)))"
    by (simp add: expand_nodes)
next
  fix i
  assume a: "children (nodes w self) = [] \<and> self < next_node w"
    and i: "i < length (get_available_child_nodes G (state (nodes w self)))"
  have c: "children (nodes (snd (expand G self w)) self) ! i = next_edge w + i"
    using a i by (simp add: expand_nodes)
  show "edges (snd (expand G self w)) (children (nodes (snd (expand G self w)) self) ! i)
           = TreeEdge_init (snd (get_available_child_nodes G (state (nodes w self)) ! i))
               self (next_node w + i)"
    unfolding c using a i by (simp add: expand_edges)
  show "nodes (snd (expand G self w)) (next_node w + i)
           = \<lparr>parent_edge = Some (children (nodes (snd (expand G self w)) self) ! i),
              children = [],
              state = fst (get_available_child_nodes G (state (nodes w self)) ! i)\<rparr>"
    unfolding c using a i by (simp add: expand_nodes)
qed

lemma ex_leaf_acts:
  "get_available_child_nodes ex_game (state (nodes ex_leaf 0)) = [(1, 1 / 2), (0, 1 / 4)]"
  by (simp add: ex_game_def ex_leaf_def TreeNode_init_def)

theorem expand_once_witness:
  "children (nodes ex_commit 0) \<noteq> [] \<and>
   expand ex_game 0 ex_commit = (Raise AssertionError, ex_commit) \<and>
   children (nodes ex_leaf 0) = [] \<and> 0 < next_node ex_leaf \<and>
   fst (expand ex_game 0 ex_leaf) = Return () \<and>
   children (nodes (snd (expand ex_game 0 ex_leaf)) 0) = [0, 1] \<and>
   edges (snd (expand ex_game 0 ex_leaf)) 0 = TreeEdge_init (1 / 2) 0 1 \<and>
   edges (snd (expand ex_game 0 ex_leaf)) 1 = TreeEdge_init (1 / 4) 0 2 \<and>
   nodes (snd (expand ex_game 0 ex_leaf)) 1 = \<lparr>parent_edge = Some 0, children = [], state = 1\<rparr> \<and>
   nodes (snd (expand ex_game 0 ex_leaf)) 2 = \<lparr>parent_edge = Some 1, children = [], state = 0\<rparr>"
proof -
  have c: "children (nodes ex_commit 0) \<noteq> []" by (simp add: ex_commit_def)
  have l: "children (nodes ex_leaf 0) = []" "0 < next_node ex_leaf"
    "next_node ex_leaf = 1" "next_edge ex_leaf = 0"
    by (simp_all add: ex_leaf_def TreeNode_init_def)
  have ch: "children (nodes (snd (expand ex_game 0 ex_leaf)) 0) = [0, 1]"
    using l by (simp add: expand_nodes ex_leaf_acts upt_rec)
  have "(0::nat) < 2" "(1::nat) < 2" by simp_all
  then show ?thesis
    using expand_once[of ex_commit 0 ex_game] expand_once[of ex_leaf 0 ex_game] c l ch
    by (simp add: ex_leaf_acts All_less_Suc numeral_2_eq_2)
qed

section \<open>An iteration that ends at a finished node\<close>

lemma random_choice_frame:
  "nodes (snd (random_choice a w)) = nodes w \<and> edges (snd (random_choice a w)) = edges w \<and>
   next_node (snd (random_choice a w)) = next_node w \<and>
   next_edge (snd (random_choice a w)) = next_edge w \<and>
   rng (snd (random_choice a w)) = rng w"
  by (simp add: random_choice_def)

lemma random_choice_mem:
  "random_choice a w = (Return x, w') \<Longrightarrow> x \<in> set a"
  by (auto simp: random_choice_def split: if_splits)

lemma random_choice_cases:
  "(a = [] \<and> random_choice a w = (Raise ValueError, w)) \<or>
   (\<exists>x \<in> set a. random_choice a w = (Return x, w\<lparr>rng_pos := Suc (rng_pos w)\<rparr>))"
  by (auto simp: random_choice_def)

lemma selection_frame:
  "nodes (snd (selection fuel n w)) = nodes w \<and> edges (snd (selection fuel n w)) = edges w \<and>
   next_node (snd (selection fuel n w)) = next_node w \<and>
   next_edge (snd (selection fuel n w)) = next_edge w \<and>
   rng (snd (selection fuel n w)) = rng w"
proof (induction fuel arbitrary: n w)
  case 0
  then show ?case by simp
next
  case (Suc fuel)
  show ?case
  proof (cases "is_terminal w n")
    case True
    then show ?thesis by simp
  next
    case False
    let ?cs = "children (nodes w n)"
    let ?sm = "softmax (map (\<lambda>c. edge_criteria w c (3 / 10)) ?cs)"
    show ?thesis
    proof (cases ?sm)
      case (Inl e)
      then show ?thesis using False by simp
    next
      case (Inr weights)
      show ?thesis
      proof (cases "length weights \<noteq> length ?cs")
        case True
        then show ?thesis using False Inr by (simp add: random_choice_p_def bind_def)
      next
        case eq: False
        from random_choice_cases[of ?cs w] show ?thesis
        proof
          assume "?cs = [] \<and> random_choice ?cs w = (Raise ValueError, w)"
          then show ?thesis using False by (simp add: is_terminal_def)
        next
          assume "\<exists>x \<in> set ?cs. random_choice ?cs w = (Return x, w\<lparr>rng_pos := Suc (rng_pos w)\<rparr>)"
          then obtain x where x: "random_choice ?cs w = (Return x, w\<lparr>rng_pos := Suc (rng_pos w)\<rparr>)"
            by blast
          have "selection (Suc fuel) n w
                 = selection fuel (child (edges w x)) (w\<lparr>rng_pos := Suc (rng_pos w)\<rparr>)"
            using False Inr eq x by (simp add: random_choice_p_def bind_def)
          then show ?thesis using Suc.IH[of "child (edges w x)" "w\<lparr>rng_pos := Suc (rng_pos w)\<rparr>"]
            by simp
        qed
      qed
    qed
  qed
qed

text \<open>
  C5: when the selection walk ends at a node that is finished, the iteration expands
  nothing (the walk itself has changed no node and no edge). If the node has a parent
  edge, the iteration is one call of \<^verbatim>\<open>update\<close> at that edge with the reward of the
  node for its own turn owner, and it returns when that call does; if the node has no parent
  edge, the iteration returns and every node and edge is as before.
\<close>

theorem fit_once_finished:
  "selection fuel (tree_root self) w = (Return cur_node, w1) \<Longrightarrow>
   is_finish G w1 cur_node \<Longrightarrow>
   nodes w1 = nodes w \<and> edges w1 = edges w \<and>
   fit_once fuel depth G self w =
     (case parent_edge (nodes w cur_node) of
        None \<Rightarrow> (Return (), w1)
      | Some pe \<Rightarrow>
          update depth pe
            (get_reward G (state (nodes w cur_node)) (node_turn G (state (nodes w cur_node)))) w1) \<and>
   nodes (snd (fit_once fuel depth G self w)) = nodes w \<and>
   fst (fit_once fuel depth G self w) =
     (case parent_edge (nodes w cur_node) of
        None \<Rightarrow> Return ()
      | Some pe \<Rightarrow>
          if length (reached (Suc depth) w pe) \<le> depth then Return () else Raise RecursionError)"
proof -
  assume sel: "selection fuel (tree_root self) w = (Return cur_node, w1)"
    and fin: "is_finish G w1 cur_node"
  have fr: "nodes w1 = nodes w" "edges w1 = edges w"
    using selection_frame[of fuel "tree_root self" w] sel by simp_all
  have f: "fit_once fuel depth G self w =
     (case parent_edge (nodes w cur_node) of
        None \<Rightarrow> (Return (), w1)
      | Some pe \<Rightarrow>
          update depth pe
            (get_reward G (state (nodes w cur_node)) (node_turn G (state (nodes w cur_node)))) w1)"
    using sel fin by (simp add: fit_once_def bind_def fr split: option.split)
  have n: "nodes (snd (fit_once fuel depth G self w)) = nodes w"
    unfolding f by (simp add: update_nodes fr split: option.split)
  have r: "\<And>pe. reached (Suc depth) w1 pe = reached (Suc depth) w pe"
    by (rule reached_cong) (simp_all add: fr)
  have o: "fst (fit_once fuel depth G self w) =
     (case parent_edge (nodes w cur_node) of
        None \<Rightarrow> Return ()
      | Some pe \<Rightarrow>
          if length (reached (Suc depth) w pe) \<le> depth then Return () else Raise RecursionError)"
    unfolding f by (simp add: update_outcome r del: reached.simps split: option.split)
  show ?thesis using fr f n o by blast
qed

lemma ex_chain_selection:
  "selection 3 (tree_root ex_tree) ex_chain = (Return 2, ex_chain\<lparr>rng_pos := 2\<rparr>)"
  by (simp add: eval_nat_numeral ex_tree_def is_terminal_def softmax_def Let_def
        random_choice_p_def random_choice_def bind_def ex_chain_def TreeEdge_init_def)

lemma ex_done_selection:
  "selection 3 (tree_root ex_tree) ex_done = (Return 0, ex_done)"
  by (simp add: eval_nat_numeral ex_tree_def is_terminal_def ex_done_def TreeNode_init_def)

theorem fit_once_finished_witness:
  "selection 3 (tree_root ex_tree) ex_chain = (Return 2, ex_chain\<lparr>rng_pos := 2\<rparr>) \<and>
   is_finish ex_game (ex_chain\<lparr>rng_pos := 2\<rparr>) 2 \<and>
   fit_once 3 5 ex_game ex_tree ex_chain = update 5 1 1 (ex_chain\<lparr>rng_pos := 2\<rparr>) \<and>
   fst (fit_once 3 5 ex_game ex_tree ex_chain) = Return () \<and>
   nodes (snd (fit_once 3 5 ex_game ex_tree ex_chain)) = nodes ex_chain \<and>
   selection 3 (tree_root ex_tree) ex_done = (Return 0, ex_done) \<and>
   is_finish ex_game ex_done 0 \<and>
   fit_once 3 5 ex_game ex_tree ex_done = (Return (), ex_done)"
proof -
  have f1: "is_finish ex_game (ex_chain\<lparr>rng_pos := 2\<rparr>) 2"
    by (simp add: is_finish_def ex_game_def ex_chain_def)
  have f2: "is_finish ex_game ex_done 0"
    by (simp add: is_finish_def ex_game_def ex_done_def TreeNode_init_def)
  have p1: "parent_edge (nodes ex_chain 2) = Some 1" "state (nodes ex_chain 2) = 0"
    by (simp_all add: ex_chain_def)
  have p2: "parent_edge (nodes ex_done 0) = None"
    by (simp add: ex_done_def TreeNode_init_def)
  have g: "get_reward ex_game 0 (node_turn ex_game 0) = 1"
    by (simp add: ex_game_def)
  have r: "reached 6 ex_chain (Suc 0) = [1, 0]"
    by (simp add: eval_nat_numeral ex_chain_def TreeEdge_init_def)
  note a = fit_once_finished[OF ex_chain_selection f1, of 5]
  note b = fit_once_finished[OF ex_done_selection f2, of 5]
  have a1: "fit_once 3 5 ex_game ex_tree ex_chain = update 5 1 1 (ex_chain\<lparr>rng_pos := 2\<rparr>)"
    using a by (simp add: p1 g del: reached.simps update.simps)
  have a2: "fst (fit_once 3 5 ex_game ex_tree ex_chain) = Return ()"
    using a[THEN conjunct2, THEN conjunct2, THEN conjunct2, THEN conjunct2]
    by (simp add: p1 r del: reached.simps update.simps)
  have a3: "nodes (snd (fit_once 3 5 ex_game ex_tree ex_chain)) = nodes ex_chain"
    using a[THEN conjunct2, THEN conjunct2, THEN conjunct2, THEN conjunct1] .
  have b1: "fit_once 3 5 ex_game ex_tree ex_done = (Return (), ex_done)"
    using b by (simp add: p2)
  show ?thesis
    using ex_chain_selection f1 a1 a2 a3 ex_done_selection f2 b1 by blast
qed

section \<open>Expansion and the replies of the opponent\<close>

lemma attach_reply_frame:
  "next_node (attach_reply G c w) = Suc (next_node w) \<and>
   next_edge (attach_reply G c w) = Suc (next_edge w) \<and>
   rng (attach_reply G c w) = rng w \<and> rng_pos (attach_reply G c w) = rng_pos w"
  by (simp add: attach_reply_def opponent_reply_def Let_def)

lemma attach_reply_edges:
  "edges (attach_reply G c w) e =
     (if e = next_edge w then TreeEdge_init 1 c (next_node w) else edges w e)"
  by (simp add: attach_reply_def opponent_reply_def Let_def)

lemma attach_reply_nodes:
  "c < next_node w \<Longrightarrow>
   nodes (attach_reply G c w) r =
     (if r = c then (nodes w c)\<lparr>children := [next_edge w]\<rparr>
      else if r = next_node w then TreeNode_init None (opponent G (state (nodes w c)))
      else nodes w r)"
  by (simp add: attach_reply_def opponent_reply_def Let_def)

lemma fold_opponent_Cons:
  "fold_opponent G (e # rest) w =
     (if is_finish G w (child (edges w e)) then fold_opponent G rest w
      else fold_opponent G rest (attach_reply G (child (edges w e)) w))"
  by (simp add: Let_def)

lemma fold_opponent_mono:
  "next_edge w \<le> next_edge (fold_opponent G es w) \<and>
   next_node w \<le> next_node (fold_opponent G es w) \<and>
   rng (fold_opponent G es w) = rng w \<and> rng_pos (fold_opponent G es w) = rng_pos w"
proof (induction es arbitrary: w)
  case Nil
  then show ?case by simp
next
  case (Cons e es)
  show ?case
    unfolding fold_opponent_Cons
    using Cons.IH[of w] Cons.IH[of "attach_reply G (child (edges w e)) w"]
    by (auto simp: attach_reply_frame)
qed

lemma fold_opponent_edges:
  "e < next_edge w \<Longrightarrow> edges (fold_opponent G es w) e = edges w e"
proof (induction es arbitrary: w)
  case Nil
  then show ?case by simp
next
  case (Cons a es)
  show ?case
    unfolding fold_opponent_Cons
    using Cons.IH[of w] Cons.IH[of "attach_reply G (child (edges w a)) w"] Cons.prems
    by (auto simp: attach_reply_frame attach_reply_edges)
qed

lemma fold_opponent_nodes:
  "\<forall>e \<in> set es. e < next_edge w \<and> child (edges w e) < next_node w \<Longrightarrow>
   r < next_node w \<Longrightarrow> r \<notin> (\<lambda>e. child (edges w e)) ` set es \<Longrightarrow>
   nodes (fold_opponent G es w) r = nodes w r"
proof (induction es arbitrary: w)
  case Nil
  then show ?case by simp
next
  case (Cons a es)
  let ?c = "child (edges w a)"
  let ?w' = "attach_reply G ?c w"
  have c: "?c < next_node w" "a < next_edge w" "r \<noteq> ?c" using Cons.prems by auto
  show ?case
  proof (cases "is_finish G w ?c")
    case True
    then show ?thesis unfolding fold_opponent_Cons using Cons.IH[of w] Cons.prems by auto
  next
    case False
    have p1: "\<forall>e \<in> set es. e < next_edge ?w' \<and> child (edges ?w' e) < next_node ?w'"
      using Cons.prems(1) by (auto simp: attach_reply_frame attach_reply_edges)
    have p2: "r < next_node ?w'" using Cons.prems(2) by (simp add: attach_reply_frame)
    have p3: "r \<notin> (\<lambda>e. child (edges ?w' e)) ` set es"
      using Cons.prems(1,3) by (auto simp: attach_reply_edges)
    have "nodes (fold_opponent G es ?w') r = nodes ?w' r"
      using Cons.IH[OF p1 p2 p3] .
    also have "\<dots> = nodes w r"
      using c Cons.prems(2) by (simp add: attach_reply_nodes)
    finally show ?thesis unfolding fold_opponent_Cons using False by simp
  qed
qed

lemma fold_opponent_state:
  "r < next_node w \<Longrightarrow>
   \<forall>e \<in> set es. e < next_edge w \<and> child (edges w e) < next_node w \<Longrightarrow>
   state (nodes (fold_opponent G es w) r) = state (nodes w r) \<and>
   parent_edge (nodes (fold_opponent G es w) r) = parent_edge (nodes w r)"
proof (induction es arbitrary: w)
  case Nil
  then show ?case by simp
next
  case (Cons a es)
  let ?c = "child (edges w a)"
  let ?w' = "attach_reply G ?c w"
  have c: "?c < next_node w" "a < next_edge w" using Cons.prems by auto
  show ?case
  proof (cases "is_finish G w ?c")
    case True
    then show ?thesis unfolding fold_opponent_Cons using Cons.IH[of w] Cons.prems by auto
  next
    case False
    have p1: "\<forall>e \<in> set es. e < next_edge ?w' \<and> child (edges ?w' e) < next_node ?w'"
      using Cons.prems(2) by (auto simp: attach_reply_frame attach_reply_edges)
    have p2: "r < next_node ?w'" using Cons.prems(1) by (simp add: attach_reply_frame)
    have "state (nodes ?w' r) = state (nodes w r) \<and>
          parent_edge (nodes ?w' r) = parent_edge (nodes w r)"
      using c Cons.prems(1) by (simp add: attach_reply_nodes)
    then show ?thesis unfolding fold_opponent_Cons using False Cons.IH[OF p2 p1] by simp
  qed
qed

lemma fold_opponent_replies:
  "\<forall>e \<in> set es. e < next_edge w \<and> child (edges w e) < next_node w \<Longrightarrow>
   distinct (map (\<lambda>e. child (edges w e)) es) \<Longrightarrow>
   e \<in> set es \<Longrightarrow>
   (is_finish G w (child (edges w e)) \<longrightarrow>
      nodes (fold_opponent G es w) (child (edges w e)) = nodes w (child (edges w e))) \<and>
   (\<not> is_finish G w (child (edges w e)) \<longrightarrow>
      (\<exists>s g. next_edge w \<le> s \<and> next_node w \<le> g \<and>
         s < next_edge (fold_opponent G es w) \<and>
         nodes (fold_opponent G es w) (child (edges w e))
           = (nodes w (child (edges w e)))\<lparr>children := [s]\<rparr> \<and>
         edges (fold_opponent G es w) s = TreeEdge_init 1 (child (edges w e)) g \<and>
         nodes (fold_opponent G es w) g
           = TreeNode_init None (opponent G (state (nodes w (child (edges w e)))))))"
proof (induction es arbitrary: w)
  case Nil
  then show ?case by simp
next
  case (Cons a es)
  let ?ca = "child (edges w a)"
  let ?c = "child (edges w e)"
  let ?w2 = "attach_reply G ?ca w"
  have bnd: "\<forall>x \<in> set es. x < next_edge w \<and> child (edges w x) < next_node w"
    using Cons.prems(1) by simp
  have ca: "?ca < next_node w" "a < next_edge w" using Cons.prems(1) by simp_all
  have dist: "distinct (map (\<lambda>e. child (edges w e)) es)"
    and ca_notin: "?ca \<notin> (\<lambda>e. child (edges w e)) ` set es"
    using Cons.prems(2) by simp_all
  have bnd2: "\<forall>x \<in> set es. x < next_edge ?w2 \<and> child (edges ?w2 x) < next_node ?w2"
    using bnd by (auto simp: attach_reply_frame attach_reply_edges)
  have kids2: "map (\<lambda>e. child (edges ?w2 e)) es = map (\<lambda>e. child (edges w e)) es"
    using bnd by (auto simp: attach_reply_edges)
  have dist2: "distinct (map (\<lambda>e. child (edges ?w2 e)) es)"
    unfolding kids2 using dist .
  have img2: "(\<lambda>e. child (edges ?w2 e)) ` set es = (\<lambda>e. child (edges w e)) ` set es"
    using kids2 by (metis image_set)
  show ?case
  proof (cases "?c = ?ca")
    case same: True
    show ?thesis
    proof (cases "is_finish G w ?ca")
      case True
      have "nodes (fold_opponent G es w) ?ca = nodes w ?ca"
        using fold_opponent_nodes[OF bnd ca(1) ca_notin] .
      then show ?thesis unfolding fold_opponent_Cons using True same by simp
    next
      case False
      have n1: "nodes (fold_opponent G es ?w2) ?ca = nodes ?w2 ?ca"
        using fold_opponent_nodes[OF bnd2, of ?ca G] ca ca_notin img2
        by (simp add: attach_reply_frame)
      have n2: "nodes ?w2 ?ca = (nodes w ?ca)\<lparr>children := [next_edge w]\<rparr>"
        using ca by (simp add: attach_reply_nodes)
      have e1: "edges (fold_opponent G es ?w2) (next_edge w) = TreeEdge_init 1 ?ca (next_node w)"
        using fold_opponent_edges[of "next_edge w" ?w2 G es]
        by (simp add: attach_reply_frame attach_reply_edges)
      have g_notin: "next_node w \<notin> (\<lambda>e. child (edges ?w2 e)) ` set es"
        using bnd img2 by auto
      have g1: "nodes (fold_opponent G es ?w2) (next_node w) = nodes ?w2 (next_node w)"
        using fold_opponent_nodes[OF bnd2, of "next_node w" G] g_notin
        by (simp add: attach_reply_frame)
      have g2: "nodes ?w2 (next_node w) = TreeNode_init None (opponent G (state (nodes w ?ca)))"
        using ca by (simp add: attach_reply_nodes)
      have s1: "next_edge w < next_edge (fold_opponent G es ?w2)"
        using fold_opponent_mono[of ?w2 G es] by (simp add: attach_reply_frame)
      have "\<exists>s g. next_edge w \<le> s \<and> next_node w \<le> g \<and>
         s < next_edge (fold_opponent G es ?w2) \<and>
         nodes (fold_opponent G es ?w2) ?ca = (nodes w ?ca)\<lparr>children := [s]\<rparr> \<and>
         edges (fold_opponent G es ?w2) s = TreeEdge_init 1 ?ca g \<and>
         nodes (fold_opponent G es ?w2) g = TreeNode_init None (opponent G (state (nodes w ?ca)))"
        using n1 n2 e1 g1 g2 s1 by (intro exI[of _ "next_edge w"] exI[of _ "next_node w"]) simp
      then show ?thesis unfolding fold_opponent_Cons using False same by simp
    qed
  next
    case diff: False
    then have mem: "e \<in> set es" using Cons.prems(3) by auto
    have cb: "?c < next_node w" using bnd mem by simp
    show ?thesis
    proof (cases "is_finish G w ?ca")
      case True
      then show ?thesis unfolding fold_opponent_Cons using Cons.IH[OF bnd dist mem] by simp
    next
      case False
      have ee: "edges ?w2 e = edges w e" using bnd mem by (auto simp: attach_reply_edges)
      have nn: "nodes ?w2 ?c = nodes w ?c"
        using ca cb diff by (simp add: attach_reply_nodes)
      have fin: "is_finish G ?w2 ?c = is_finish G w ?c"
        by (simp add: is_finish_def nn)
      note ih = Cons.IH[OF bnd2 dist2 mem, unfolded ee nn fin]
      have le: "next_edge w \<le> next_edge ?w2" "next_node w \<le> next_node ?w2"
        by (simp_all add: attach_reply_frame)
      show ?thesis unfolding fold_opponent_Cons using False ih le
        by (auto intro: order_trans)
    qed
  qed
qed

lemma expansion_eq:
  "children (nodes w cur_node) = [] \<Longrightarrow>
   expansion G cur_node w =
     (Return (),
      fold_opponent G (children (nodes (snd (expand G cur_node w)) cur_node))
        (snd (expand G cur_node w)))"
  by (simp add: expansion_def bind_def expand_snd)

text \<open>
  C4: expanding a node without children and folding the opponent in returns, and leaves
  the node with one child edge per enumerated action. For each of these edges: if its
  child node is finished, that node has no children; if it is not, that node has exactly
  one child edge, new, with prior 1, no visits, the node as parent, and as child a new
  node that holds the opponent's reply to the node.
\<close>

theorem expansion_folds_opponent:
  "children (nodes w cur_node) = [] \<Longrightarrow> cur_node < next_node w \<Longrightarrow>
   fst (expansion G cur_node w) = Return () \<and>
   length (children (nodes (snd (expansion G cur_node w)) cur_node))
     = length (get_available_child_nodes G (state (nodes w cur_node))) \<and>
   (\<forall>e \<in> set (children (nodes (snd (expansion G cur_node w)) cur_node)).
      (is_finish G (snd (expansion G cur_node w)) (child (edges (snd (expansion G cur_node w)) e)) \<longrightarrow>
         children (nodes (snd (expansion G cur_node w))
                     (child (edges (snd (expansion G cur_node w)) e))) = []) \<and>
      (\<not> is_finish G (snd (expansion G cur_node w)) (child (edges (snd (expansion G cur_node w)) e)) \<longrightarrow>
         (\<exists>s. children (nodes (snd (expansion G cur_node w))
                         (child (edges (snd (expansion G cur_node w)) e))) = [s] \<and>
              edges (snd (expansion G cur_node w)) s
                = TreeEdge_init 1 (child (edges (snd (expansion G cur_node w)) e))
                    (child (edges (snd (expansion G cur_node w)) s)) \<and>
              nodes (snd (expansion G cur_node w)) (child (edges (snd (expansion G cur_node w)) s))
                = TreeNode_init None
                    (opponent G (state (nodes (snd (expansion G cur_node w))
                                          (child (edges (snd (expansion G cur_node w)) e))))))))"
proof -
  assume empty: "children (nodes w cur_node) = []" and alloc: "cur_node < next_node w"
  let ?acts = "get_available_child_nodes G (state (nodes w cur_node))"
  let ?k = "length ?acts"
  let ?N = "next_node w"
  let ?E = "next_edge w"
  let ?w1 = "snd (expand G cur_node w)"
  let ?es = "[?E ..< ?E + ?k]"
  let ?w' = "fold_opponent G ?es ?w1"
  have es: "children (nodes ?w1 cur_node) = ?es"
    using empty alloc by (simp add: expand_nodes)
  have w': "snd (expansion G cur_node w) = ?w'"
    by (simp add: expansion_eq[OF empty] es)
  have kid: "\<And>e. e \<in> set ?es \<Longrightarrow> child (edges ?w1 e) = ?N + (e - ?E)"
    using empty by (simp add: expand_edges TreeEdge_init_def)
  have nn: "next_node ?w1 = ?N + ?k" "next_edge ?w1 = ?E + ?k"
    by (simp_all add: expand_frame[OF empty])
  have bnd: "\<forall>e \<in> set ?es. e < next_edge ?w1 \<and> child (edges ?w1 e) < next_node ?w1"
    using kid nn by auto
  have kids: "map (\<lambda>e. child (edges ?w1 e)) ?es = map (\<lambda>e. ?N + (e - ?E)) ?es"
    using kid by (intro map_cong) auto
  have "distinct (map (\<lambda>e. ?N + (e - ?E)) ?es)"
    by (auto simp: distinct_map inj_on_def)
  then have dist: "distinct (map (\<lambda>e. child (edges ?w1 e)) ?es)"
    unfolding kids .
  have cur_notin: "cur_node \<notin> (\<lambda>e. child (edges ?w1 e)) ` set ?es"
    using kid alloc by auto
  have cur_lt: "cur_node < next_node ?w1" using alloc nn by simp
  have cur_same: "nodes ?w' cur_node = nodes ?w1 cur_node"
    using fold_opponent_nodes[OF bnd cur_lt cur_notin, of G] .
  have ch: "children (nodes ?w' cur_node) = ?es" using cur_same es by simp
  have part1: "fst (expansion G cur_node w) = Return ()"
    by (simp add: expansion_eq[OF empty])
  have part2: "length (children (nodes ?w' cur_node)) = ?k" using ch by simp
  have part3: "\<forall>e \<in> set (children (nodes ?w' cur_node)).
      (is_finish G ?w' (child (edges ?w' e)) \<longrightarrow> children (nodes ?w' (child (edges ?w' e))) = []) \<and>
      (\<not> is_finish G ?w' (child (edges ?w' e)) \<longrightarrow>
         (\<exists>s. children (nodes ?w' (child (edges ?w' e))) = [s] \<and>
              edges ?w' s = TreeEdge_init 1 (child (edges ?w' e)) (child (edges ?w' s)) \<and>
              nodes ?w' (child (edges ?w' s))
                = TreeNode_init None (opponent G (state (nodes ?w' (child (edges ?w' e)))))))"
  proof
    fix e
    assume "e \<in> set (children (nodes ?w' cur_node))"
    then have mem: "e \<in> set ?es" using ch by simp
    let ?c = "child (edges ?w1 e)"
    have ee: "edges ?w' e = edges ?w1 e"
      using fold_opponent_edges[of e ?w1 G ?es] bnd mem by blast
    have c_lt: "?c < next_node ?w1" using bnd mem by blast
    have c_rng: "?N \<le> ?c" "?c < ?N + ?k" "?c \<noteq> cur_node"
      using kid[OF mem] mem alloc by auto
    have st: "state (nodes ?w' ?c) = state (nodes ?w1 ?c)"
      using fold_opponent_state[OF c_lt bnd, of G] by simp
    have fin: "is_finish G ?w' ?c = is_finish G ?w1 ?c"
      by (simp add: is_finish_def st)
    have c1: "children (nodes ?w1 ?c) = []"
      using c_rng empty alloc by (simp add: expand_nodes)
    note rep = fold_opponent_replies[OF bnd dist mem, of G]
    show "(is_finish G ?w' (child (edges ?w' e)) \<longrightarrow> children (nodes ?w' (child (edges ?w' e))) = []) \<and>
      (\<not> is_finish G ?w' (child (edges ?w' e)) \<longrightarrow>
         (\<exists>s. children (nodes ?w' (child (edges ?w' e))) = [s] \<and>
              edges ?w' s = TreeEdge_init 1 (child (edges ?w' e)) (child (edges ?w' s)) \<and>
              nodes ?w' (child (edges ?w' s))
                = TreeNode_init None (opponent G (state (nodes ?w' (child (edges ?w' e)))))))"
      unfolding ee
    proof (intro conjI impI)
      assume "is_finish G ?w' ?c"
      then have "nodes ?w' ?c = nodes ?w1 ?c" using rep fin by simp
      then show "children (nodes ?w' ?c) = []" using c1 by simp
    next
      assume "\<not> is_finish G ?w' ?c"
      then obtain s g where sg:
        "nodes ?w' ?c = (nodes ?w1 ?c)\<lparr>children := [s]\<rparr>"
        "edges ?w' s = TreeEdge_init 1 ?c g"
        "nodes ?w' g = TreeNode_init None (opponent G (state (nodes ?w1 ?c)))"
        using rep fin by auto
      have g: "child (edges ?w' s) = g" using sg(2) by (simp add: TreeEdge_init_def)
      show "\<exists>s. children (nodes ?w' ?c) = [s] \<and>
              edges ?w' s = TreeEdge_init 1 ?c (child (edges ?w' s)) \<and>
              nodes ?w' (child (edges ?w' s))
                = TreeNode_init None (opponent G (state (nodes ?w' ?c)))"
        using sg g st by (intro exI[of _ s]) simp
    qed
  qed
  show ?thesis unfolding w' using part1 part2 part3 by blast
qed

lemmas ex_eval = expansion_def bind_def expand_def available_child_nodes_def
  attach_reply_def opponent_reply_def is_finish_def ex_game_def ex_leaf_def
  TreeNode_init_def TreeEdge_init_def Let_def

lemma ex_leaf_expansion:
  "fst (expansion ex_game 0 ex_leaf) = Return ()"
  "children (nodes (snd (expansion ex_game 0 ex_leaf)) 0) = [0, 1]"
  "child (edges (snd (expansion ex_game 0 ex_leaf)) 0) = 1"
  "child (edges (snd (expansion ex_game 0 ex_leaf)) (Suc 0)) = 2"
  "nodes (snd (expansion ex_game 0 ex_leaf)) (Suc 0) = \<lparr>parent_edge = Some 0, children = [2], state = 1\<rparr>"
  "nodes (snd (expansion ex_game 0 ex_leaf)) 2 = \<lparr>parent_edge = Some 1, children = [], state = 0\<rparr>"
  "edges (snd (expansion ex_game 0 ex_leaf)) 2 = TreeEdge_init 1 1 3"
  "nodes (snd (expansion ex_game 0 ex_leaf)) 3 = \<lparr>parent_edge = None, children = [], state = 0\<rparr>"
  by (simp_all add: ex_eval)

theorem expansion_folds_opponent_witness:
  "children (nodes ex_leaf 0) = [] \<and> 0 < next_node ex_leaf \<and>
   fst (expansion ex_game 0 ex_leaf) = Return () \<and>
   children (nodes (snd (expansion ex_game 0 ex_leaf)) 0) = [0, 1] \<and>
   child (edges (snd (expansion ex_game 0 ex_leaf)) 0) = 1 \<and>
   \<not> is_finish ex_game (snd (expansion ex_game 0 ex_leaf)) 1 \<and>
   children (nodes (snd (expansion ex_game 0 ex_leaf)) 1) = [2] \<and>
   edges (snd (expansion ex_game 0 ex_leaf)) 2 = TreeEdge_init 1 1 3 \<and>
   state (nodes (snd (expansion ex_game 0 ex_leaf)) 3) = opponent ex_game 1 \<and>
   child (edges (snd (expansion ex_game 0 ex_leaf)) 1) = 2 \<and>
   is_finish ex_game (snd (expansion ex_game 0 ex_leaf)) 2 \<and>
   children (nodes (snd (expansion ex_game 0 ex_leaf)) 2) = []"
proof -
  have p: "children (nodes ex_leaf 0) = []" "0 < next_node ex_leaf"
    by (simp_all add: ex_leaf_def TreeNode_init_def)
  have f: "\<not> is_finish ex_game (snd (expansion ex_game 0 ex_leaf)) 1"
    "is_finish ex_game (snd (expansion ex_game 0 ex_leaf)) 2"
    by (simp_all add: is_finish_def ex_leaf_expansion) (simp_all add: ex_game_def)
  have o: "opponent ex_game 1 = 0" by (simp add: ex_game_def)
  show ?thesis
    using expansion_folds_opponent[OF p, of ex_game] p f o
    by (simp add: ex_leaf_expansion)
qed

text \<open>
  C8, where the code departs from it: \<^verbatim>\<open>expand\<close> sets the \<open>parent_edge\<close> of every
  node it adds (C6), but line 182 creates the edge to the opponent's reply and leaves the
  \<open>parent_edge\<close> of the reply node as the opponent built it. After the expansion of the
  root of \<open>ex_leaf\<close>, node 1 has the single child edge 2, edge 2 leads to node 3, and node 3
  has no parent edge.
\<close>

theorem fold_opponent_no_back_reference:
  "children (nodes (snd (expansion ex_game 0 ex_leaf)) 1) = [2] \<and>
   parent (edges (snd (expansion ex_game 0 ex_leaf)) 2) = 1 \<and>
   child (edges (snd (expansion ex_game 0 ex_leaf)) 2) = 3 \<and>
   parent_edge (nodes (snd (expansion ex_game 0 ex_leaf)) 3) = None \<and>
   parent_edge (nodes (snd (expansion ex_game 0 ex_leaf)) 3) \<noteq> Some 2"
  by (simp add: ex_leaf_expansion TreeEdge_init_def)

section \<open>The roll-out\<close>

lemma expand_loop_children:
  "children (nodes (expand_loop self pairs w) self)
     = children (nodes w self) @ [next_edge w ..< next_edge w + length pairs]"
proof (induction pairs arbitrary: w)
  case Nil
  then show ?case by simp
next
  case (Cons a pairs)
  obtain n p where a: "a = (n, p)" by (cases a)
  show ?case
    unfolding a expand_loop_Cons Cons.IH
    using upt_shift[of "next_edge w" "length pairs"]
    by (simp del: upt_Suc)
qed

lemma expand_loop_other:
  "r \<noteq> self \<Longrightarrow> r \<notin> fst ` set pairs \<Longrightarrow> nodes (expand_loop self pairs w) r = nodes w r"
proof (induction pairs arbitrary: w)
  case Nil
  then show ?case by simp
next
  case (Cons a pairs)
  obtain n p where a: "a = (n, p)" by (cases a)
  have "r \<notin> fst ` set pairs" "r \<noteq> n" using Cons.prems(2) a by auto
  then show ?case
    unfolding a expand_loop_Cons using Cons.IH Cons.prems(1) by simp
qed

lemma expand_old_edges:
  "e < next_edge w \<Longrightarrow> edges (snd (expand G self w)) e = edges w e"
  by (cases "children (nodes w self) = []") (simp_all add: expand_edges, simp add: expand_def)

lemma expand_old_nodes:
  "r < next_node w \<Longrightarrow> r \<noteq> self \<Longrightarrow> nodes (snd (expand G self w)) r = nodes w r"
proof (cases "children (nodes w self) = []")
  case True
  assume r: "r < next_node w" "r \<noteq> self"
  let ?acts = "get_available_child_nodes G (state (nodes w self))"
  have "r \<notin> fst ` set (zip [next_node w ..< next_node w + length ?acts] (map snd ?acts))"
    using r(1) by (auto dest!: set_zip_leftD)
  then show ?thesis
    using r by (simp add: expand_snd[OF True] expand_loop_other alloc_nodes_nodes)
next
  case False
  then show ?thesis by (simp add: expand_def)
qed

lemma expand_mono:
  "next_node w \<le> next_node (snd (expand G self w)) \<and>
   next_edge w \<le> next_edge (snd (expand G self w))"
  by (cases "children (nodes w self) = []") (simp_all add: expand_frame, simp add: expand_def)

lemma expand_new_children:
  assumes "children (nodes w self) = []"
    and "a \<in> set (children (nodes (snd (expand G self w)) self))"
  shows "next_node w \<le> child (edges (snd (expand G self w)) a)"
proof -
  let ?acts = "get_available_child_nodes G (state (nodes w self))"
  have "children (nodes (snd (alloc_nodes ?acts w)) self) = []"
    using assms(1) by (simp add: alloc_nodes_nodes TreeNode_init_def)
  then have "children (nodes (snd (expand G self w)) self)
               = [next_edge w ..< next_edge w + length ?acts]"
    by (simp add: expand_snd[OF assms(1)] expand_loop_children alloc_nodes_frame)
  then have "next_edge w \<le> a" "a < next_edge w + length ?acts" using assms(2) by simp_all
  then show ?thesis by (simp add: expand_edges[OF assms(1)] TreeEdge_init_def)
qed

lemma expand_outcome:
  "fst (expand G self w) = Return () \<longleftrightarrow> children (nodes w self) = []"
  by (cases "children (nodes w self) = []") (simp add: expand_snd, simp add: expand_def)

lemma opponent_reply_frame:
  "fst (opponent_reply G n w) = next_node w \<and>
   next_node (snd (opponent_reply G n w)) = Suc (next_node w) \<and>
   next_edge (snd (opponent_reply G n w)) = next_edge w \<and>
   edges (snd (opponent_reply G n w)) = edges w \<and>
   (\<forall>r. r \<noteq> next_node w \<longrightarrow> nodes (snd (opponent_reply G n w)) r = nodes w r)"
  by (simp add: opponent_reply_def Let_def)

lemma roll_out_Suc_own:
  "\<not> is_finish G w n \<Longrightarrow> children (nodes w n) = [] \<Longrightarrow>
   roll_out (Suc fuel) G first False n w =
     bind (random_choice (children (nodes (snd (expand G n w)) n)) (snd (expand G n w)))
       (\<lambda>action w2. roll_out fuel G first True (child (edges w2 action)) w2)"
  by (simp add: bind_def expand_snd)

lemma roll_out_Suc_own_raise:
  "\<not> is_finish G w n \<Longrightarrow> children (nodes w n) \<noteq> [] \<Longrightarrow>
   roll_out (Suc fuel) G first False n w = (Raise AssertionError, w)"
  by (simp add: bind_def expand_def)

lemma roll_out_frame:
  "N \<le> n \<Longrightarrow> N \<le> next_node w \<Longrightarrow> E \<le> next_edge w \<Longrightarrow>
   (first \<longrightarrow> opp \<and> (\<forall>e \<in> set (children (nodes w n)). N \<le> child (edges w e))) \<Longrightarrow>
   (\<forall>r < N. nodes (snd (roll_out fuel G first opp n w)) r = nodes w r) \<and>
   (\<forall>e < E. edges (snd (roll_out fuel G first opp n w)) e = edges w e) \<and>
   (\<forall>x. fst (roll_out fuel G first opp n w) = Return x \<longrightarrow> N \<le> x)"
proof (induction fuel arbitrary: n w first opp)
  case 0
  then show ?case by simp
next
  case (Suc fuel)
  show ?case
  proof (cases "is_finish G w n")
    case True
    then show ?thesis using Suc.prems(1) by simp
  next
    case nf: False
    show ?thesis
    proof (cases opp)
      case own: False
      then have nfirst: "\<not> first" using Suc.prems(4) by blast
      show ?thesis
      proof (cases "children (nodes w n) = []")
        case False
        then show ?thesis using own roll_out_Suc_own_raise[OF nf False, of fuel first]
          by (simp del: roll_out.simps)
      next
        case empty: True
        let ?w1 = "snd (expand G n w)"
        let ?cs = "children (nodes ?w1 n)"
        note step = roll_out_Suc_own[OF nf empty, of fuel first]
        from random_choice_cases[of ?cs ?w1] show ?thesis
        proof
          assume "?cs = [] \<and> random_choice ?cs ?w1 = (Raise ValueError, ?w1)"
          then have "roll_out (Suc fuel) G first opp n w = (Raise ValueError, ?w1)"
            using own step by (simp add: bind_def random_choice_def del: roll_out.simps)
          then show ?thesis
            using Suc.prems(1,2,3) by (auto simp: expand_old_nodes expand_old_edges)
        next
          assume "\<exists>x \<in> set ?cs. random_choice ?cs ?w1 = (Return x, ?w1\<lparr>rng_pos := Suc (rng_pos ?w1)\<rparr>)"
          then obtain a where a: "a \<in> set ?cs"
            "random_choice ?cs ?w1 = (Return a, ?w1\<lparr>rng_pos := Suc (rng_pos ?w1)\<rparr>)"
            by blast
          let ?w2 = "?w1\<lparr>rng_pos := Suc (rng_pos ?w1)\<rparr>"
          let ?n' = "child (edges ?w2 a)"
          have r: "roll_out (Suc fuel) G first opp n w = roll_out fuel G False True ?n' ?w2"
            using own nfirst step a(2) by (simp add: bind_def del: roll_out.simps)
          have n': "N \<le> ?n'"
            using expand_new_children[OF empty a(1)] Suc.prems(2) by simp
          have m: "N \<le> next_node ?w2" "E \<le> next_edge ?w2"
            using expand_mono[of w G n] Suc.prems(2,3) by simp_all
          note ih = Suc.IH[OF n' m, of False True]
          have old: "\<forall>r < N. nodes ?w2 r = nodes w r" "\<forall>e < E. edges ?w2 e = edges w e"
            using Suc.prems(1,2,3) by (auto simp: expand_old_nodes expand_old_edges)
          show ?thesis unfolding r using ih old by simp
        qed
      qed
    next
      case opp: True
      show ?thesis
      proof (cases first)
        case first: True
        show ?thesis
        proof (cases "children (nodes w n)")
          case Nil
          then show ?thesis using nf opp first by simp
        next
          case (Cons e es)
          let ?n' = "child (edges w e)"
          have r: "roll_out (Suc fuel) G first opp n w = roll_out fuel G False False ?n' w"
            using nf opp first Cons by simp
          have n': "N \<le> ?n'" using Suc.prems(4) first Cons by simp
          show ?thesis unfolding r
            using Suc.IH[OF n' Suc.prems(2,3), of False False] by simp
        qed
      next
        case nfirst: False
        let ?w1 = "snd (opponent_reply G n w)"
        let ?n' = "fst (opponent_reply G n w)"
        have r: "roll_out (Suc fuel) G first opp n w = roll_out fuel G False False ?n' ?w1"
          using nf opp nfirst by (simp add: case_prod_beta)
        have n': "N \<le> ?n'" using Suc.prems(2) by (simp add: opponent_reply_frame)
        have m: "N \<le> next_node ?w1" "E \<le> next_edge ?w1"
          using Suc.prems(2,3) by (simp_all add: opponent_reply_frame)
        have old: "\<forall>r < N. nodes ?w1 r = nodes w r" "\<forall>e < E. edges ?w1 e = edges w e"
          using Suc.prems(2) by (auto simp: opponent_reply_frame)
        show ?thesis unfolding r
          using Suc.IH[OF n' m, of False False] old by simp
      qed
    qed
  qed
qed

lemma selection_terminal:
  "fst (selection fuel n w) = Return x \<Longrightarrow> children (nodes w x) = []"
proof (induction fuel arbitrary: n w)
  case 0
  then show ?case by simp
next
  case (Suc fuel)
  show ?case
  proof (cases "is_terminal w n")
    case True
    then show ?thesis using Suc.prems by (simp add: is_terminal_def)
  next
    case False
    let ?cs = "children (nodes w n)"
    let ?sm = "softmax (map (\<lambda>c. edge_criteria w c (3 / 10)) ?cs)"
    show ?thesis
    proof (cases ?sm)
      case (Inl e)
      then show ?thesis using False Suc.prems by simp
    next
      case (Inr weights)
      show ?thesis
      proof (cases "length weights \<noteq> length ?cs")
        case True
        then show ?thesis using False Inr Suc.prems by (simp add: random_choice_p_def bind_def)
      next
        case eq: False
        from random_choice_cases[of ?cs w] show ?thesis
        proof
          assume "?cs = [] \<and> random_choice ?cs w = (Raise ValueError, w)"
          then show ?thesis using False by (simp add: is_terminal_def)
        next
          assume "\<exists>x \<in> set ?cs. random_choice ?cs w = (Return x, w\<lparr>rng_pos := Suc (rng_pos w)\<rparr>)"
          then obtain a where a: "random_choice ?cs w = (Return a, w\<lparr>rng_pos := Suc (rng_pos w)\<rparr>)"
            by blast
          have "selection (Suc fuel) n w
                 = selection fuel (child (edges w a)) (w\<lparr>rng_pos := Suc (rng_pos w)\<rparr>)"
            using False Inr eq a by (simp add: random_choice_p_def bind_def)
          then show ?thesis
            using Suc.IH[of "child (edges w a)" "w\<lparr>rng_pos := Suc (rng_pos w)\<rparr>"] Suc.prems
            by simp
        qed
      qed
    qed
  qed
qed

lemma deepcopy_frame:
  "fst (deepcopy n w) = n + next_node w \<and>
   next_node (snd (deepcopy n w)) = 2 * next_node w \<and>
   next_edge (snd (deepcopy n w)) = 2 * next_edge w \<and>
   (\<forall>r < next_node w. nodes (snd (deepcopy n w)) r = nodes w r) \<and>
   (\<forall>e < next_edge w. edges (snd (deepcopy n w)) e = edges w e)"
  by (simp add: deepcopy_def Let_def)

lemma deepcopy_twin:
  "r < next_node w \<Longrightarrow>
     nodes (snd (deepcopy n w)) (r + next_node w) = copy_node (next_edge w) (nodes w r)"
  "e < next_edge w \<Longrightarrow>
     edges (snd (deepcopy n w)) (e + next_edge w) = copy_edge (next_node w) (edges w e)"
  by (simp_all add: deepcopy_def Let_def)

lemma roll_out_phase_frame:
  assumes "cur < next_node w" and "\<forall>e \<in> set (children (nodes w cur)). e < next_edge w"
  shows "(\<forall>r < next_node w. nodes (snd (roll_out_phase fuel G cur w)) r = nodes w r) \<and>
         (\<forall>e < next_edge w. edges (snd (roll_out_phase fuel G cur w)) e = edges w e) \<and>
         (\<forall>x. fst (roll_out_phase fuel G cur w) = Return x \<longrightarrow> next_node w \<le> x)"
proof -
  let ?N = "next_node w"
  let ?E = "next_edge w"
  let ?w1 = "snd (deepcopy cur w)"
  let ?n = "cur + ?N"
  have ph: "roll_out_phase fuel G cur w = roll_out fuel G True True ?n ?w1"
    by (simp add: roll_out_phase_def case_prod_beta deepcopy_frame)
  have ch: "children (nodes ?w1 ?n) = map (\<lambda>e. e + ?E) (children (nodes w cur))"
    using assms(1) by (simp add: deepcopy_twin copy_node_def)
  have kids: "\<forall>e \<in> set (children (nodes ?w1 ?n)). ?N \<le> child (edges ?w1 e)"
    unfolding ch using assms(2) by (auto simp: deepcopy_twin copy_edge_def)
  have pre: "True \<longrightarrow> True \<and> (\<forall>e \<in> set (children (nodes ?w1 ?n)). ?N \<le> child (edges ?w1 e))"
    using kids by simp
  have b: "?N \<le> ?n" "?N \<le> next_node ?w1" "?E \<le> next_edge ?w1"
    by (simp_all add: deepcopy_frame)
  note fr = roll_out_frame[OF b pre, of fuel G]
  show ?thesis unfolding ph using fr deepcopy_frame[of cur w] by simp
qed

lemma expansion_facts:
  assumes empty: "children (nodes w cur_node) = []" and alloc: "cur_node < next_node w"
  shows "children (nodes (snd (expansion G cur_node w)) cur_node)
           = [next_edge w ..<
              next_edge w + length (get_available_child_nodes G (state (nodes w cur_node)))]"
    and "\<forall>a \<in> set (children (nodes (snd (expansion G cur_node w)) cur_node)).
           a < next_edge (snd (expansion G cur_node w)) \<and>
           child (edges (snd (expansion G cur_node w)) a) < next_node (snd (expansion G cur_node w)) \<and>
           (\<forall>s \<in> set (children (nodes (snd (expansion G cur_node w))
                                   (child (edges (snd (expansion G cur_node w)) a)))).
              s < next_edge (snd (expansion G cur_node w)))"
    and "state (nodes (snd (expansion G cur_node w)) cur_node) = state (nodes w cur_node)"
    and "next_node w \<le> next_node (snd (expansion G cur_node w))"
proof -
  let ?acts = "get_available_child_nodes G (state (nodes w cur_node))"
  let ?k = "length ?acts"
  let ?N = "next_node w"
  let ?E = "next_edge w"
  let ?w1 = "snd (expand G cur_node w)"
  let ?es = "[?E ..< ?E + ?k]"
  let ?w' = "fold_opponent G ?es ?w1"
  have es: "children (nodes ?w1 cur_node) = ?es"
    using empty alloc by (simp add: expand_nodes)
  have w': "snd (expansion G cur_node w) = ?w'"
    by (simp add: expansion_eq[OF empty] es)
  have kid: "\<And>e. e \<in> set ?es \<Longrightarrow> child (edges ?w1 e) = ?N + (e - ?E)"
    using empty by (simp add: expand_edges TreeEdge_init_def)
  have nn: "next_node ?w1 = ?N + ?k" "next_edge ?w1 = ?E + ?k"
    by (simp_all add: expand_frame[OF empty])
  have bnd: "\<forall>e \<in> set ?es. e < next_edge ?w1 \<and> child (edges ?w1 e) < next_node ?w1"
    using kid nn by auto
  have kids: "map (\<lambda>e. child (edges ?w1 e)) ?es = map (\<lambda>e. ?N + (e - ?E)) ?es"
    using kid by (intro map_cong) auto
  have "distinct (map (\<lambda>e. ?N + (e - ?E)) ?es)"
    by (auto simp: distinct_map inj_on_def)
  then have dist: "distinct (map (\<lambda>e. child (edges ?w1 e)) ?es)"
    unfolding kids .
  have cur_notin: "cur_node \<notin> (\<lambda>e. child (edges ?w1 e)) ` set ?es"
    using kid alloc by auto
  have cur_lt: "cur_node < next_node ?w1" using alloc nn by simp
  have cur_same: "nodes ?w' cur_node = nodes ?w1 cur_node"
    using fold_opponent_nodes[OF bnd cur_lt cur_notin, of G] .
  have mono: "next_edge ?w1 \<le> next_edge ?w'" "next_node ?w1 \<le> next_node ?w'"
    using fold_opponent_mono[of ?w1 G ?es] by simp_all
  show "children (nodes (snd (expansion G cur_node w)) cur_node) = ?es"
    unfolding w' using cur_same es by simp
  show "state (nodes (snd (expansion G cur_node w)) cur_node) = state (nodes w cur_node)"
    unfolding w' using cur_same empty alloc by (simp add: expand_nodes)
  show "next_node w \<le> next_node (snd (expansion G cur_node w))"
    unfolding w' using nn mono by simp
  show "\<forall>a \<in> set (children (nodes (snd (expansion G cur_node w)) cur_node)).
           a < next_edge (snd (expansion G cur_node w)) \<and>
           child (edges (snd (expansion G cur_node w)) a) < next_node (snd (expansion G cur_node w)) \<and>
           (\<forall>s \<in> set (children (nodes (snd (expansion G cur_node w))
                                   (child (edges (snd (expansion G cur_node w)) a)))).
              s < next_edge (snd (expansion G cur_node w)))"
    unfolding w'
  proof
    fix a
    assume "a \<in> set (children (nodes ?w' cur_node))"
    then have mem: "a \<in> set ?es" using cur_same es by simp
    let ?c = "child (edges ?w1 a)"
    have a_lt: "a < next_edge ?w1" using bnd mem by blast
    have ee: "edges ?w' a = edges ?w1 a"
      using fold_opponent_edges[OF a_lt, of G ?es] .
    have c_lt: "?c < next_node ?w1" using bnd mem by blast
    have c_rng: "?N \<le> ?c" "?c < ?N + ?k" "?c \<noteq> cur_node"
      using kid[OF mem] mem alloc by auto
    have c1: "children (nodes ?w1 ?c) = []"
      using c_rng empty alloc by (simp add: expand_nodes)
    note rep = fold_opponent_replies[OF bnd dist mem, of G]
    have "\<forall>s \<in> set (children (nodes ?w' ?c)). s < next_edge ?w'"
    proof (cases "is_finish G ?w1 ?c")
      case True
      then have "nodes ?w' ?c = nodes ?w1 ?c" using rep by simp
      then show ?thesis using c1 by simp
    next
      case False
      then obtain s where "s < next_edge ?w'" "nodes ?w' ?c = (nodes ?w1 ?c)\<lparr>children := [s]\<rparr>"
        using rep by auto
      then show ?thesis by simp
    qed
    then show "a < next_edge ?w' \<and> child (edges ?w' a) < next_node ?w' \<and>
           (\<forall>s \<in> set (children (nodes ?w' (child (edges ?w' a)))). s < next_edge ?w')"
      unfolding ee using a_lt c_lt mono by simp
  qed
qed

text \<open>
  C7: in an iteration whose selected node is not finished, the roll-out runs on the copy.
  With \<open>w3\<close> the store after expansion and the draw of the selected action, the
  roll-out phase leaves every node and every edge that exists in \<open>w3\<close> as it is, whatever
  the generator draws and whether the simulation ends, raises or runs out of fuel; the node
  the simulation ends at is not one of them. The iteration then is one call of
  \<^verbatim>\<open>update\<close> at the selected action edge, an edge of \<open>w3\<close>, with the reward of
  that end node for the turn owner of the selected node.
\<close>

theorem roll_out_on_copy:
  assumes "selection fuel (tree_root self) w = (Return cur_node, w1)"
    and "\<not> is_finish G w1 cur_node"
    and "cur_node < next_node w"
  shows "\<exists>sel_action w2 w3 out w4.
     expansion G cur_node w1 = (Return (), w2) \<and>
     random_choice (children (nodes w2 cur_node)) w2 = (Return sel_action, w3) \<and>
     sel_action \<in> set (children (nodes w3 cur_node)) \<and>
     sel_action < next_edge w3 \<and>
     roll_out_phase fuel G (child (edges w3 sel_action)) w3 = (out, w4) \<and>
     (\<forall>r < next_node w3. nodes w4 r = nodes w3 r) \<and>
     (\<forall>e < next_edge w3. edges w4 e = edges w3 e) \<and>
     (\<forall>x. out = Return x \<longrightarrow> next_node w3 \<le> x) \<and>
     fit_once fuel depth G self w =
       (case out of
          Return roll_out_node \<Rightarrow>
            update depth sel_action
              (get_reward G (state (nodes w4 roll_out_node))
                 (node_turn G (state (nodes w3 cur_node)))) w4
        | Raise e \<Rightarrow> (Raise e, w4)
        | OutOfFuel \<Rightarrow> (OutOfFuel, w4))"
proof -
  have fr: "nodes w1 = nodes w" "next_node w1 = next_node w"
    using selection_frame[of fuel "tree_root self" w] assms(1) by simp_all
  have empty: "children (nodes w1 cur_node) = []"
    using selection_terminal[of fuel "tree_root self" w cur_node] assms(1) fr by simp
  have alloc: "cur_node < next_node w1" using assms(3) fr by simp
  define w2 where "w2 = snd (expansion G cur_node w1)"
  have ex: "expansion G cur_node w1 = (Return (), w2)"
    by (simp add: w2_def expansion_eq[OF empty])
  let ?acts = "get_available_child_nodes G (state (nodes w1 cur_node))"
  have acts: "?acts \<noteq> []" using assms(2) by (simp add: is_finish_def)
  note facts = expansion_facts[OF empty alloc, of G, folded w2_def]
  have ne: "children (nodes w2 cur_node) \<noteq> []" using facts(1) acts by simp
  define w3 where "w3 = w2\<lparr>rng_pos := Suc (rng_pos w2)\<rparr>"
  from random_choice_cases[of "children (nodes w2 cur_node)" w2] ne
  obtain sel_action where sa: "sel_action \<in> set (children (nodes w2 cur_node))"
    "random_choice (children (nodes w2 cur_node)) w2 = (Return sel_action, w3)"
    unfolding w3_def by blast
  have w3: "nodes w3 = nodes w2" "edges w3 = edges w2" "next_node w3 = next_node w2"
    "next_edge w3 = next_edge w2"
    by (simp_all add: w3_def)
  let ?c = "child (edges w3 sel_action)"
  have c: "sel_action < next_edge w3" "?c < next_node w3"
    "\<forall>s \<in> set (children (nodes w3 ?c)). s < next_edge w3"
    using facts(2) sa(1) unfolding w3 by blast+
  define out where "out = fst (roll_out_phase fuel G ?c w3)"
  define w4 where "w4 = snd (roll_out_phase fuel G ?c w3)"
  have ro: "roll_out_phase fuel G ?c w3 = (out, w4)" by (simp add: out_def w4_def)
  note rf = roll_out_phase_frame[OF c(2,3), of fuel G, folded out_def w4_def]
  have cur3: "cur_node < next_node w3"
    using alloc facts(4) w3 by simp
  have st: "state (nodes w4 cur_node) = state (nodes w3 cur_node)"
    using rf cur3 by simp
  have fit: "fit_once fuel depth G self w =
       (case out of
          Return roll_out_node \<Rightarrow>
            update depth sel_action
              (get_reward G (state (nodes w4 roll_out_node))
                 (node_turn G (state (nodes w3 cur_node)))) w4
        | Raise e \<Rightarrow> (Raise e, w4)
        | OutOfFuel \<Rightarrow> (OutOfFuel, w4))"
    using assms(1,2) ex sa(2) ro st
    by (simp add: fit_once_def bind_def Let_def split: outcome.split)
  have sa3: "sel_action \<in> set (children (nodes w3 cur_node))"
    using sa(1) w3 by simp
  show ?thesis
    by (rule exI[of _ sel_action], rule exI[of _ w2], rule exI[of _ w3],
        rule exI[of _ out], rule exI[of _ w4])
       (use ex sa(2) sa3 c(1) ro rf fit in blast)
qed

lemmas fit_eval = fit_once_def bind_def is_terminal_def is_finish_def expansion_def expand_def
  available_child_nodes_def attach_reply_def opponent_reply_def random_choice_def
  roll_out_phase_def deepcopy_def copy_node_def copy_edge_def
  TreeNode_init_def TreeEdge_init_def Let_def eval_nat_numeral

lemma ex_start_fit:
  "fst (fit_once 3 5 ex_game ex_tree ex_start) = Return ()"
  "visit_count (edges (snd (fit_once 3 5 ex_game ex_tree ex_start)) 0) = 1"
  "visit_count (edges (snd (fit_once 3 5 ex_game ex_tree ex_start)) (Suc 0)) = 0"
  "children (nodes (snd (fit_once 3 5 ex_game ex_tree ex_start)) 0) = [0, 1]"
  "children (nodes (snd (fit_once 3 5 ex_game ex_tree ex_start)) (Suc 0)) = [2]"
  "children (nodes (snd (fit_once 3 5 ex_game ex_tree ex_start)) 3) = []"
  by (simp_all add: fit_eval ex_game_def ex_tree_def ex_start_def)

theorem roll_out_on_copy_witness:
  "selection 3 (tree_root ex_tree) ex_start = (Return 0, ex_start) \<and>
   \<not> is_finish ex_game ex_start 0 \<and> 0 < next_node ex_start \<and>
   fst (fit_once 3 5 ex_game ex_tree ex_start) = Return () \<and>
   visit_count (edges (snd (fit_once 3 5 ex_game ex_tree ex_start)) 0) = 1 \<and>
   visit_count (edges (snd (fit_once 3 5 ex_game ex_tree ex_start)) (Suc 0)) = 0 \<and>
   children (nodes (snd (fit_once 3 5 ex_game ex_tree ex_start)) 0) = [0, 1] \<and>
   children (nodes (snd (fit_once 3 5 ex_game ex_tree ex_start)) (Suc 0)) = [2] \<and>
   children (nodes (snd (fit_once 3 5 ex_game ex_tree ex_start)) 3) = []"
proof -
  have sel: "selection 3 (tree_root ex_tree) ex_start = (Return 0, ex_start)"
    by (simp add: eval_nat_numeral ex_tree_def is_terminal_def ex_start_def TreeNode_init_def)
  have nf: "\<not> is_finish ex_game ex_start 0"
    by (simp add: is_finish_def ex_game_def ex_start_def TreeNode_init_def)
  have alloc: "0 < next_node ex_start" by (simp add: ex_start_def)
  note t = roll_out_on_copy[OF sel nf alloc, of 5]
  show ?thesis using t sel nf alloc ex_start_fit by blast
qed

section \<open>Properties of softmax\<close>

lemma tiny_pos: "0 < tiny"
  by (simp add: tiny_def)

lemma tiny_less_one: "tiny < 1"
  by (simp add: tiny_def)

lemma underflow_nonneg: "0 \<le> y \<Longrightarrow> 0 \<le> underflow y"
  by (simp add: underflow_def)

lemma underflow_le: "0 \<le> y \<Longrightarrow> underflow y \<le> y"
  by (simp add: underflow_def)

lemma underflow_ge: "0 \<le> y \<Longrightarrow> y - tiny \<le> underflow y"
  using tiny_pos by (simp add: underflow_def)

lemma underflow_pos_iff: "0 \<le> y \<Longrightarrow> 0 < underflow y \<longleftrightarrow> tiny < y"
  using tiny_pos by (auto simp: underflow_def)

lemma underflow_pos_eq: "0 < underflow y \<Longrightarrow> underflow y = y"
  by (auto simp: underflow_def split: if_splits)

lemma underflow_zero: "underflow 0 = 0"
  by (simp add: underflow_def)

lemma underflow_one: "underflow 1 = 1"
  using tiny_less_one by (simp add: underflow_def)

lemma sum_list_divide: "sum_list (map (\<lambda>v. v / c) xs) = sum_list xs / (c::real)"
  by (induction xs) (simp_all add: add_divide_distrib)

lemma sum_list_shift:
  "sum_list (map (\<lambda>v. f v - c) xs) = sum_list (map f xs) - (c::real) * real (length xs)"
  by (induction xs) (simp_all add: algebra_simps)

lemma sum_list_ge_member:
  "\<forall>v \<in> set xs. 0 \<le> (v::real) \<Longrightarrow> a \<in> set xs \<Longrightarrow> a \<le> sum_list xs"
proof (induction xs)
  case Nil
  then show ?case by simp
next
  case (Cons b xs)
  have nn: "0 \<le> sum_list xs" using Cons.prems(1) by (intro sum_list_nonneg) simp
  show ?case
  proof (cases "a = b")
    case True
    then show ?thesis using nn by simp
  next
    case False
    then have "a \<le> sum_list xs" using Cons by simp
    then show ?thesis using Cons.prems(1) by simp
  qed
qed

lemma sum_list_le_length:
  "\<forall>v \<in> set xs. (v::real) \<le> 1 \<Longrightarrow> sum_list xs \<le> real (length xs)"
  by (induction xs) auto

lemma exp_1000_underflows: "exp (- 1000 :: real) \<le> tiny"
proof -
  have e: "(5 / 2 :: real) \<le> exp 1"
    using exp_lower_Taylor_quadratic[of "1 :: real"] by simp
  have "(2 :: real) ^ 1075 \<le> 2 ^ 1250" by (rule power_increasing) simp_all
  also have "\<dots> = ((2 :: real) ^ 5) ^ 250" by (simp add: power_mult [symmetric])
  also have "\<dots> \<le> ((5 / 2) ^ 4) ^ 250"
    by (rule power_mono) (simp_all add: power_divide)
  also have "\<dots> = (5 / 2 :: real) ^ 1000" by (simp add: power_mult [symmetric])
  also have "\<dots> \<le> exp 1 ^ 1000" using e by (rule power_mono) simp
  also have "\<dots> = exp (1000 :: real)"
    using exp_of_nat_mult[of 1000 "1 :: real"] by simp
  finally have "(2 :: real) ^ 1075 \<le> exp 1000" .
  then have "1 / exp (1000 :: real) \<le> 1 / 2 ^ 1075"
    by (intro divide_left_mono) simp_all
  then show ?thesis by (simp add: exp_minus inverse_eq_divide tiny_def)
qed

lemma softmax_far_below: "softmax [0, - 1000] = Inr [1, 0]"
proof -
  have m: "Max (set [0, - 1000 :: real]) = 0" by simp
  have u: "underflow (exp (- 1000)) = 0"
    using exp_1000_underflows by (simp add: underflow_def)
  show ?thesis
    unfolding softmax_def m by (simp add: u underflow_one underflow_zero Let_def)
qed

text \<open>
  C9, as the code has it: for a non-empty vector of scores the softmax gives one weight per
  score; every weight is non-negative; the weights sum to at most 1, to at least
  \<open>1 - n * tiny\<close> for \<open>n\<close> scores, and to exactly 1 when all of them are positive.
  A weight is positive when \<open>exp (score - max) / n\<close> is above the underflow threshold
  \<open>tiny\<close>, so always for a score equal to the maximum, and it is exactly zero when
  \<open>exp (score - max)\<close> is at or below the threshold.
\<close>

theorem softmax_weights:
  assumes "x \<noteq> []"
  shows "\<exists>ps. softmax x = Inr ps \<and> length ps = length x \<and>
     (\<forall>i < length x.
        0 \<le> ps ! i \<and>
        (tiny < exp (x ! i - Max (set x)) / real (length x) \<longrightarrow> 0 < ps ! i) \<and>
        (x ! i = Max (set x) \<and> real (length x) < 2 ^ 1075 \<longrightarrow> 0 < ps ! i) \<and>
        (exp (x ! i - Max (set x)) \<le> tiny \<longrightarrow> ps ! i = 0)) \<and>
     1 - real (length x) * tiny \<le> sum_list ps \<and> sum_list ps \<le> 1 \<and>
     ((\<forall>p \<in> set ps. 0 < p) \<longrightarrow> sum_list ps = 1)"
proof -
  let ?M = "Max (set x)"
  let ?c = "tiny"
  let ?e = "map (\<lambda>v. underflow (exp (v - ?M))) x"
  let ?S = "sum_list ?e"
  let ?ps = "map (\<lambda>v. underflow (v / ?S)) ?e"
  let ?n = "real (length x)"
  have sm: "softmax x = Inr ?ps" using assms by (simp add: softmax_def Let_def)
  have n_pos: "0 < ?n" using assms by simp
  have M_in: "?M \<in> set x" using assms by (intro Max_in) simp_all
  have le_M: "\<And>v. v \<in> set x \<Longrightarrow> v \<le> ?M" by (intro Max_ge) simp_all
  have e_nonneg: "\<forall>v \<in> set ?e. 0 \<le> v" by (auto intro: underflow_nonneg)
  have e_le1: "\<forall>v \<in> set ?e. v \<le> 1"
  proof
    fix v assume "v \<in> set ?e"
    then obtain y where y: "y \<in> set x" "v = underflow (exp (y - ?M))" by auto
    have "underflow (exp (y - ?M)) \<le> exp (y - ?M)" by (intro underflow_le) simp
    also have "\<dots> \<le> 1" using le_M[OF y(1)] by simp
    finally show "v \<le> 1" using y(2) by simp
  qed
  have one_in: "1 \<in> set ?e"
  proof -
    have "underflow (exp (?M - ?M)) \<in> (\<lambda>v. underflow (exp (v - ?M))) ` set x"
      using M_in by (rule imageI)
    then show ?thesis by (simp add: underflow_one)
  qed
  have S_ge: "1 \<le> ?S" using sum_list_ge_member[OF e_nonneg one_in] .
  have S_le: "?S \<le> ?n" using sum_list_le_length[OF e_le1] by simp
  have S_pos: "0 < ?S" using S_ge by simp
  have q_nonneg: "\<And>v. v \<in> set ?e \<Longrightarrow> 0 \<le> v / ?S"
  proof -
    fix v assume "v \<in> set ?e"
    then have "0 \<le> v" using e_nonneg by blast
    then show "0 \<le> v / ?S" using S_pos by (intro divide_nonneg_pos)
  qed
  have exact: "sum_list (map (\<lambda>v. v / ?S) ?e) = 1"
    unfolding sum_list_divide using S_pos by simp
  have upper: "sum_list ?ps \<le> 1"
  proof -
    have "sum_list ?ps \<le> sum_list (map (\<lambda>v. v / ?S) ?e)"
      by (intro sum_list_mono underflow_le q_nonneg)
    then show ?thesis using exact by simp
  qed
  have lower: "1 - ?n * tiny \<le> sum_list ?ps"
  proof -
    have "sum_list (map (\<lambda>v. v / ?S - ?c) ?e) \<le> sum_list ?ps"
      by (intro sum_list_mono underflow_ge q_nonneg)
    moreover have "sum_list (map (\<lambda>v. v / ?S - ?c) ?e) = 1 - ?c * ?n"
      unfolding sum_list_shift exact by simp
    ultimately show ?thesis by (simp add: mult.commute)
  qed
  have all_pos: "(\<forall>p \<in> set ?ps. 0 < p) \<longrightarrow> sum_list ?ps = 1"
  proof
    assume a: "\<forall>p \<in> set ?ps. 0 < p"
    have eq: "?ps = map (\<lambda>v. v / ?S) ?e"
    proof (intro map_cong refl)
      fix v assume "v \<in> set ?e"
      then have "underflow (v / ?S) \<in> set ?ps" by (simp only: set_map) (rule imageI)
      then have "0 < underflow (v / ?S)" using a by blast
      then show "underflow (v / ?S) = v / ?S" by (rule underflow_pos_eq)
    qed
    show "sum_list ?ps = 1" by (subst eq) (rule exact)
  qed
  have pointwise: "\<forall>i < length x.
        0 \<le> ?ps ! i \<and>
        (?c < exp (x ! i - ?M) / ?n \<longrightarrow> 0 < ?ps ! i) \<and>
        (x ! i = ?M \<and> ?n < 2 ^ 1075 \<longrightarrow> 0 < ?ps ! i) \<and>
        (exp (x ! i - ?M) \<le> ?c \<longrightarrow> ?ps ! i = 0)"
  proof (intro allI impI)
    fix i assume i: "i < length x"
    let ?d = "exp (x ! i - ?M)"
    have psi: "?ps ! i = underflow (underflow ?d / ?S)" using i by simp
    have d_le: "?d \<le> 1" using le_M[of "x ! i"] i by simp
    have nonneg: "0 \<le> ?ps ! i"
      unfolding psi using S_pos by (intro underflow_nonneg divide_nonneg_pos) simp_all
    have suff: "?c < ?d / ?n \<Longrightarrow> 0 < ?ps ! i"
    proof -
      assume a: "?c < ?d / ?n"
      have n1: "1 \<le> ?n" using assms by (cases x) simp_all
      have "?d * 1 \<le> ?d * ?n" using n1 by (intro mult_left_mono) simp_all
      then have "?d / ?n \<le> ?d" using n_pos n1 by (simp add: divide_le_eq)
      then have "?c < ?d" using a by simp
      then have ud: "underflow ?d = ?d" using tiny_pos by (simp add: underflow_def)
      have "?d / ?n \<le> ?d / ?S"
        using S_le S_pos n_pos by (intro divide_left_mono mult_pos_pos) simp_all
      then have lt: "?c < ?d / ?S" using a by simp
      have q: "0 \<le> ?d / ?S" using S_pos by (intro divide_nonneg_pos) simp_all
      show "0 < ?ps ! i" unfolding psi ud using underflow_pos_iff[OF q] lt by blast
    qed
    have at_max: "x ! i = ?M \<and> ?n < 2 ^ 1075 \<Longrightarrow> 0 < ?ps ! i"
    proof -
      assume a: "x ! i = ?M \<and> ?n < 2 ^ 1075"
      then have "?c < 1 / ?n" using n_pos by (simp add: tiny_def field_simps)
      then have "?c < ?d / ?n" using a by simp
      then show "0 < ?ps ! i" by (rule suff)
    qed
    have zero: "?d \<le> ?c \<Longrightarrow> ?ps ! i = 0"
    proof -
      assume "?d \<le> ?c"
      then have "underflow ?d = 0" by (simp add: underflow_def)
      then show "?ps ! i = 0" unfolding psi by (simp add: underflow_zero)
    qed
    show "0 \<le> ?ps ! i \<and>
        (?c < ?d / ?n \<longrightarrow> 0 < ?ps ! i) \<and>
        (x ! i = ?M \<and> ?n < 2 ^ 1075 \<longrightarrow> 0 < ?ps ! i) \<and>
        (?d \<le> ?c \<longrightarrow> ?ps ! i = 0)"
      using nonneg suff at_max zero by blast
  qed
  show ?thesis
    using sm pointwise lower upper all_pos
    by (intro exI[of _ ?ps]) simp
qed

lemma softmax_equal_scores: "softmax [3, 3] = Inr [1 / 2, 1 / 2]"
proof -
  have m: "Max (set [3, 3 :: real]) = 3" by simp
  have h: "underflow (1 / 2) = 1 / 2" by (simp add: underflow_def tiny_def)
  show ?thesis
    unfolding softmax_def m by (simp add: underflow_one h Let_def)
qed

theorem softmax_weights_witness:
  "[0, - 1000 :: real] \<noteq> [] \<and>
   softmax [0, - 1000] = Inr [1, 0] \<and>
   tiny < exp (0 - Max (set [0, - 1000 :: real])) / real (length [0, - 1000 :: real]) \<and>
   0 < [1, 0 :: real] ! 0 \<and>
   exp (- 1000 - Max (set [0, - 1000 :: real])) \<le> tiny \<and>
   [1, 0 :: real] ! 1 = 0 \<and>
   sum_list [1, 0 :: real] = 1 \<and>
   [3, 3 :: real] \<noteq> [] \<and>
   softmax [3, 3] = Inr [1 / 2, 1 / 2] \<and>
   sum_list [1 / 2, 1 / 2 :: real] = 1"
proof -
  have a: "[0, - 1000 :: real] \<noteq> []" and b: "[3, 3 :: real] \<noteq> []" by simp_all
  note t1 = softmax_weights[OF a]
  note t2 = softmax_weights[OF b]
  have m: "Max (set [0, - 1000 :: real]) = 0" by simp
  have p: "tiny < exp (0 - Max (set [0, - 1000 :: real])) / real (length [0, - 1000 :: real])"
    unfolding m by (simp add: tiny_def)
  have z: "exp (- 1000 - Max (set [0, - 1000 :: real])) \<le> tiny"
    unfolding m using exp_1000_underflows by simp
  show ?thesis
    using t1 t2 a b p z softmax_far_below softmax_equal_scores by simp
qed

text \<open>
  C9 as stated fails: for the scores 0 and -1000 the second weight is exactly zero.
\<close>

theorem softmax_zero_weight: "softmax [0, - 1000] = Inr [1, 0] \<and> \<not> 0 < [1, 0 :: real] ! 1"
  using softmax_far_below by simp

end
